theory Spec2Isabelle
  imports Complex_Main
begin

section \<open>Strings as Python sees them\<close>

text \<open>
  A Python \<open>str\<close> is modelled as a \<open>string\<close> whose characters are the code points
  0..255. The character tests below are Python's \<open>str.isspace\<close>, the \<open>re\<close> module's
  \<open>\d\<close> and \<open>\w\<close> for \<open>str\<close> patterns, and \<open>str.lower\<close>, on that range.
\<close>

definition is_space :: "char \<Rightarrow> bool" where
  "is_space c = (let n = (of_char c :: nat) in
     (9 \<le> n \<and> n \<le> 13) \<or> (28 \<le> n \<and> n \<le> 32) \<or> n = 133 \<or> n = 160)"

definition is_digit :: "char \<Rightarrow> bool" where
  "is_digit c = (let n = (of_char c :: nat) in 48 \<le> n \<and> n \<le> 57)"

definition is_word :: "char \<Rightarrow> bool" where
  "is_word c = (let n = (of_char c :: nat) in
     (48 \<le> n \<and> n \<le> 57) \<or> (65 \<le> n \<and> n \<le> 90) \<or> n = 95 \<or> (97 \<le> n \<and> n \<le> 122) \<or>
     n = 170 \<or> n = 178 \<or> n = 179 \<or> n = 181 \<or> n = 185 \<or> n = 186 \<or>
     (188 \<le> n \<and> n \<le> 190) \<or> (192 \<le> n \<and> n \<le> 214) \<or> (216 \<le> n \<and> n \<le> 246) \<or>
     (248 \<le> n \<and> n \<le> 255))"

definition lower_char :: "char \<Rightarrow> char" where
  "lower_char c = (let n = (of_char c :: nat) in
     if (65 \<le> n \<and> n \<le> 90) \<or> (192 \<le> n \<and> n \<le> 214) \<or> (216 \<le> n \<and> n \<le> 222)
     then char_of (n + 32) else c)"

definition py_lower :: "string \<Rightarrow> string" where
  "py_lower s = map lower_char s"

text \<open>\<open>s.strip()\<close>: leading and trailing whitespace removed.\<close>

definition py_lstrip :: "string \<Rightarrow> string" where
  "py_lstrip s = dropWhile is_space s"

definition py_rstrip :: "string \<Rightarrow> string" where
  "py_rstrip s = rev (dropWhile is_space (rev s))"

definition py_strip :: "string \<Rightarrow> string" where
  "py_strip s = py_rstrip (py_lstrip s)"

text \<open>\<open>s.strip(chars)\<close>: leading and trailing characters of the given set removed.\<close>

definition py_strip_chars :: "string \<Rightarrow> string \<Rightarrow> string" where
  "py_strip_chars chars s =
     rev (dropWhile (\<lambda>c. c \<in> set chars) (rev (dropWhile (\<lambda>c. c \<in> set chars) s)))"

text \<open>\<open>s.split()\<close>: the maximal runs of non-whitespace characters, in order.\<close>

fun py_split :: "string \<Rightarrow> string list" where
  "py_split [] = []"
| "py_split (c # cs) =
     (if is_space c then py_split cs
      else if cs \<noteq> [] \<and> \<not> is_space (hd cs)
           then (case py_split cs of w # ws \<Rightarrow> (c # w) # ws | [] \<Rightarrow> [[c]])
           else [c] # py_split cs)"

text \<open>\<open>s.split(sep)\<close> for a one-character separator: never empty, \<open>"".split(sep) == [""]\<close>.\<close>

fun py_split_on :: "char \<Rightarrow> string \<Rightarrow> string list" where
  "py_split_on sep [] = [[]]"
| "py_split_on sep (c # cs) =
     (if c = sep then [] # py_split_on sep cs
      else (case py_split_on sep cs of w # ws \<Rightarrow> (c # w) # ws | [] \<Rightarrow> [[c]]))"

text \<open>\<open>sep.join(parts)\<close>.\<close>

fun py_join :: "string \<Rightarrow> string list \<Rightarrow> string" where
  "py_join sep [] = []"
| "py_join sep [w] = w"
| "py_join sep (w # v # ws) = w @ sep @ py_join sep (v # ws)"

text \<open>The first result of a function over a list, as a \<open>for\<close> loop that returns at
  the first success.\<close>

fun first_some :: "('a \<Rightarrow> 'b option) \<Rightarrow> 'a list \<Rightarrow> 'b option" where
  "first_some f [] = None"
| "first_some f (x # xs) = (case f x of Some y \<Rightarrow> Some y | None \<Rightarrow> first_some f xs)"

section \<open>Regular expressions\<close>

text \<open>
  The fragment of Python's \<open>re\<close> syntax the program uses: character sets, \<open>\b\<close>,
  concatenation, alternation, \<open>?\<close>, greedy bounded and unbounded repetition of a
  character set, and capture groups. Matching is by backtracking: \<open>rx_ends\<close> lists
  every way to match from a position, most preferred first, so its head is the match
  Python reports.
\<close>

datatype cset =
    CDigit
  | CWord
  | CSpace
  | CChar char
  | CRange char char
  | CNot cset
  | COr cset cset

text \<open>Under \<open>re.IGNORECASE\<close> (\<open>ic\<close>) a literal matches both cases. The ranges of the
  program's patterns hold digits only.\<close>

fun cset_ok :: "bool \<Rightarrow> cset \<Rightarrow> char \<Rightarrow> bool" where
  "cset_ok ic CDigit c = is_digit c"
| "cset_ok ic CWord c = is_word c"
| "cset_ok ic CSpace c = is_space c"
| "cset_ok ic (CChar k) c = (if ic then lower_char c = lower_char k else c = k)"
| "cset_ok ic (CRange a b) c = ((of_char a :: nat) \<le> of_char c \<and> (of_char c :: nat) \<le> of_char b)"
| "cset_ok ic (CNot cs) c = (\<not> cset_ok ic cs c)"
| "cset_ok ic (COr x y) c = (cset_ok ic x c \<or> cset_ok ic y c)"

datatype rx =
    REps
  | RSym cset
  | RBound
  | RCat rx rx
  | RAlt rx rx
  | ROpt rx
  | RRep cset nat "nat option"
  | RGroup nat rx

text \<open>Captured groups: group number, start and end of its span.\<close>

type_synonym caps = "(nat \<times> nat \<times> nat) list"

text \<open>\<open>\b\<close> holds at \<open>p\<close> when exactly one of the characters before and after \<open>p\<close>
  is a word character (the ends of the string count as non-word).\<close>

definition at_boundary :: "string \<Rightarrow> nat \<Rightarrow> bool" where
  "at_boundary s p =
     ((0 < p \<and> p \<le> length s \<and> is_word (s ! (p - 1))) \<noteq> (p < length s \<and> is_word (s ! p)))"

fun rx_ends :: "bool \<Rightarrow> string \<Rightarrow> rx \<Rightarrow> nat \<times> caps \<Rightarrow> (nat \<times> caps) list" where
  "rx_ends ic s REps st = [st]"
| "rx_ends ic s (RSym cs) st =
     (if fst st < length s \<and> cset_ok ic cs (s ! fst st) then [(Suc (fst st), snd st)] else [])"
| "rx_ends ic s RBound st = (if at_boundary s (fst st) then [st] else [])"
| "rx_ends ic s (RCat a b) st = concat (map (rx_ends ic s b) (rx_ends ic s a st))"
| "rx_ends ic s (RAlt a b) st = rx_ends ic s a st @ rx_ends ic s b st"
| "rx_ends ic s (ROpt a) st = rx_ends ic s a st @ [st]"
| "rx_ends ic s (RRep cs lo hi) st =
     (let run = length (takeWhile (cset_ok ic cs) (drop (fst st) s));
          n = (case hi of None \<Rightarrow> run | Some h \<Rightarrow> min run h)
      in if n < lo then [] else map (\<lambda>k. (fst st + k, snd st)) (rev [lo..<Suc n]))"
| "rx_ends ic s (RGroup i a) st =
     map (\<lambda>r. (fst r, (i, fst st, fst r) # snd r)) (rx_ends ic s a st)"

text \<open>\<open>pattern.match\<close> anchored at \<open>p\<close>: start, end and groups of the preferred match.\<close>

definition rx_match_at :: "bool \<Rightarrow> rx \<Rightarrow> string \<Rightarrow> nat \<Rightarrow> (nat \<times> nat \<times> caps) option" where
  "rx_match_at ic r s p =
     (case rx_ends ic s r (p, []) of [] \<Rightarrow> None | m # _ \<Rightarrow> Some (p, fst m, snd m))"

text \<open>\<open>pattern.search(s, start)\<close>: the leftmost position with a match.\<close>

definition rx_search :: "bool \<Rightarrow> rx \<Rightarrow> string \<Rightarrow> nat \<Rightarrow> (nat \<times> nat \<times> caps) option" where
  "rx_search ic r s start = first_some (rx_match_at ic r s) [start..<Suc (length s)]"

lemma first_some_upt_bounds:
  "first_some f [a..<b] = Some y \<Longrightarrow> \<exists>p. a \<le> p \<and> p < b \<and> f p = Some y"
proof (induction "b - a" arbitrary: a)
  case 0
  then show ?case by simp
next
  case (Suc d)
  then have ab: "a < b" by simp
  then have u: "[a..<b] = a # [Suc a..<b]" by (simp add: upt_conv_Cons)
  show ?case
  proof (cases "f a")
    case None
    with Suc.prems u have "first_some f [Suc a..<b] = Some y" by simp
    moreover from Suc.hyps(2) have "d = b - Suc a" by simp
    ultimately obtain p where "Suc a \<le> p" "p < b" "f p = Some y"
      using Suc.hyps(1) by blast
    then show ?thesis by (intro exI[of _ p]) simp
  next
    case (Some z)
    with Suc.prems u have "z = y" by simp
    with Some ab show ?thesis by (intro exI[of _ a]) simp
  qed
qed

lemma rx_search_bounds:
  assumes "rx_search ic r s start = Some (b, e, g)"
  shows "start \<le> b \<and> b \<le> length s"
proof -
  from assms have "first_some (rx_match_at ic r s) [start..<Suc (length s)] = Some (b, e, g)"
    by (simp add: rx_search_def)
  from first_some_upt_bounds[OF this]
  obtain p where p: "start \<le> p" "p < Suc (length s)"
      "rx_match_at ic r s p = Some (b, e, g)"
    by auto
  from p(3) have "b = p"
    by (cases "rx_ends ic s r (p, [])") (simp_all add: rx_match_at_def)
  with p show ?thesis by simp
qed

text \<open>
  The scan behind \<open>findall\<close> and \<open>sub\<close>: the non-overlapping matches, left to right.
  After a match the scan resumes at its end. (After an empty match Python moves on by
  one character; no pattern of the program matches the empty string.)
\<close>

function rx_finditer :: "bool \<Rightarrow> rx \<Rightarrow> string \<Rightarrow> nat \<Rightarrow> (nat \<times> nat \<times> caps) list" where
  "rx_finditer ic r s pos =
     (case rx_search ic r s pos of
        None \<Rightarrow> []
      | Some m \<Rightarrow>
          m # rx_finditer ic r s (if fst m < fst (snd m) then fst (snd m) else Suc (fst m)))"
  by pat_completeness auto
termination
proof (relation "measure (\<lambda>(ic, r, s, pos). Suc (length s) - pos)", goal_cases)
  case 1
  show ?case by simp
next
  case (2 ic r s pos m)
  obtain b e g where m: "m = (b, e, g)" by (cases m) auto
  from 2 m rx_search_bounds have "pos \<le> b \<and> b \<le> length s" by blast
  then have "Suc (length s) - (if b < e then e else Suc b) < Suc (length s) - pos"
    by auto
  then show ?case using m by (auto split: if_splits)
qed

declare rx_finditer.simps [simp del]

text \<open>The text of a span \<open>s[b:e]\<close>.\<close>

definition span :: "string \<Rightarrow> nat \<Rightarrow> nat \<Rightarrow> string" where
  "span s b e = take (e - b) (drop b s)"

text \<open>\<open>pattern.sub("", s)\<close>: every match of the scan removed.\<close>

fun cut_spans :: "string \<Rightarrow> nat \<Rightarrow> (nat \<times> nat \<times> caps) list \<Rightarrow> string" where
  "cut_spans s pos [] = drop pos s"
| "cut_spans s pos (m # ms) = span s pos (fst m) @ cut_spans s (fst (snd m)) ms"

definition rx_sub_empty :: "bool \<Rightarrow> rx \<Rightarrow> string \<Rightarrow> string" where
  "rx_sub_empty ic r s = cut_spans s 0 (rx_finditer ic r s 0)"


definition group_text :: "string \<Rightarrow> caps \<Rightarrow> nat \<Rightarrow> string" where
  "group_text s g i = (case map_of g i of Some be \<Rightarrow> span s (fst be) (snd be) | None \<Rightarrow> [])"


text \<open>Pattern builders: a sequence, a literal text, \<open>\d{n}\<close>.\<close>

definition rseq :: "rx list \<Rightarrow> rx" where
  "rseq rs = foldr RCat rs REps"

definition rlit :: "string \<Rightarrow> rx" where
  "rlit w = rseq (map (\<lambda>c. RSym (CChar c)) w)"

definition rdigits :: "nat \<Rightarrow> rx" where
  "rdigits n = RRep CDigit n (Some n)"

section \<open>Dates and \<open>datetime.strptime\<close>\<close>

record datetime =
  dt_year :: nat
  dt_month :: nat
  dt_day :: nat
  dt_hour :: nat
  dt_minute :: nat
  dt_second :: nat

definition is_leap :: "nat \<Rightarrow> bool" where
  "is_leap y = (y mod 4 = 0 \<and> (y mod 100 \<noteq> 0 \<or> y mod 400 = 0))"

definition days_in_month :: "nat \<Rightarrow> nat \<Rightarrow> nat" where
  "days_in_month y m =
     (if m = 2 then (if is_leap y then 29 else 28)
      else if m = 4 \<or> m = 6 \<or> m = 9 \<or> m = 11 then 30 else 31)"

text \<open>The constructor \<open>datetime(y, m, d, H, M, S)\<close>: \<open>None\<close> is its \<open>ValueError\<close>.\<close>

definition make_datetime :: "nat \<Rightarrow> nat \<Rightarrow> nat \<Rightarrow> nat \<Rightarrow> nat \<Rightarrow> nat \<Rightarrow> datetime option" where
  "make_datetime y m d H M S =
     (if 1 \<le> y \<and> y \<le> 9999 \<and> 1 \<le> m \<and> m \<le> 12 \<and> 1 \<le> d \<and> d \<le> days_in_month y m \<and>
         H \<le> 23 \<and> M \<le> 59 \<and> S \<le> 59
      then Some \<lparr>dt_year = y, dt_month = m, dt_day = d, dt_hour = H, dt_minute = M, dt_second = S\<rparr>
      else None)"

text \<open>\<open>int(text)\<close> on a text of digits, after the surrounding blanks \<open>int\<close> ignores.\<close>

definition digit_val :: "char \<Rightarrow> nat" where
  "digit_val c = of_char c - 48"

definition int_of_text :: "string \<Rightarrow> nat" where
  "int_of_text w = foldl (\<lambda>acc c. 10 * acc + digit_val c) 0 (py_strip w)"

text \<open>
  The directives of a format string. \<open>strptime\<close> turns the format into a regular
  expression, one named group per directive (the groups are numbered here: 1 year,
  2 month, 3 day, 4 hour, 5 minute, 6 second), each run of blanks into \<open>\s+\<close>, compiles
  it with \<open>IGNORECASE\<close>, matches it at the start of the text and requires the match to
  end at the end of the text.
\<close>

datatype directive = DirY | Dirm | Dird | DirH | DirM | DirS | DirLit char | DirBlank

definition rdig :: rx where
  "rdig = RSym CDigit"

definition rrange :: "char \<Rightarrow> char \<Rightarrow> rx" where
  "rrange a b = RSym (CRange a b)"

definition rchar :: "char \<Rightarrow> rx" where
  "rchar c = RSym (CChar c)"

fun directive_rx :: "directive \<Rightarrow> rx" where
  "directive_rx DirY = RGroup 1 (rseq [rdig, rdig, rdig, rdig])"
| "directive_rx Dirm =
     RGroup 2 (RAlt (RCat (rchar CHR ''1'') (rrange CHR ''0'' CHR ''2''))
              (RAlt (RCat (rchar CHR ''0'') (rrange CHR ''1'' CHR ''9''))
                    (rrange CHR ''1'' CHR ''9'')))"
| "directive_rx Dird =
     RGroup 3 (RAlt (RCat (rchar CHR ''3'') (rrange CHR ''0'' CHR ''1''))
              (RAlt (RCat (rrange CHR ''1'' CHR ''2'') rdig)
              (RAlt (RCat (rchar CHR ''0'') (rrange CHR ''1'' CHR ''9''))
              (RAlt (rrange CHR ''1'' CHR ''9'')
                    (RCat (rchar CHR '' '') (rrange CHR ''1'' CHR ''9''))))))"
| "directive_rx DirH =
     RGroup 4 (RAlt (RCat (rchar CHR ''2'') (rrange CHR ''0'' CHR ''3''))
              (RAlt (RCat (rrange CHR ''0'' CHR ''1'') rdig) rdig))"
| "directive_rx DirM = RGroup 5 (RAlt (RCat (rrange CHR ''0'' CHR ''5'') rdig) rdig)"
| "directive_rx DirS =
     RGroup 6 (RAlt (RCat (rchar CHR ''6'') (rrange CHR ''0'' CHR ''1''))
              (RAlt (RCat (rrange CHR ''0'' CHR ''5'') rdig) rdig))"
| "directive_rx (DirLit c) = rchar c"
| "directive_rx DirBlank = RRep CSpace 1 None"

definition format_regex :: "directive list \<Rightarrow> rx" where
  "format_regex fmt = rseq (map directive_rx fmt)"

text \<open>\<open>datetime.strptime(data_string, fmt)\<close>; \<open>None\<close> is its \<open>ValueError\<close>: the text
  does not match the format, unconverted data remains, or the fields are no date.\<close>

definition strptime :: "string \<Rightarrow> directive list \<Rightarrow> datetime option" where
  "strptime data_string fmt =
     (case rx_match_at True (format_regex fmt) data_string 0 of
        None \<Rightarrow> None
      | Some found \<Rightarrow>
          if fst (snd found) \<noteq> length data_string then None
          else let g = snd (snd found); field = (\<lambda>i. int_of_text (group_text data_string g i))
               in make_datetime (field 1) (field 2) (field 3) (field 4) (field 5) (field 6))"

text \<open>The three formats of \<open>extract_timestamp\<close>: \<open>%Y-%m-%d %H:%M:%S\<close>,
  \<open>%Y-%m-%dT%H:%M:%S\<close> and \<open>%d/%m/%Y %H:%M:%S\<close>.\<close>

definition fmt_time :: "directive list" where
  "fmt_time = [DirH, DirLit CHR '':'', DirM, DirLit CHR '':'', DirS]"

definition fmt_ymd_space :: "directive list" where
  "fmt_ymd_space = [DirY, DirLit CHR ''-'', Dirm, DirLit CHR ''-'', Dird, DirBlank] @ fmt_time"

definition fmt_ymd_T :: "directive list" where
  "fmt_ymd_T = [DirY, DirLit CHR ''-'', Dirm, DirLit CHR ''-'', Dird, DirLit CHR ''T''] @ fmt_time"

definition fmt_dmy_space :: "directive list" where
  "fmt_dmy_space = [Dird, DirLit CHR ''/'', Dirm, DirLit CHR ''/'', DirY, DirBlank] @ fmt_time"

definition TIMESTAMP_FORMATS :: "directive list list" where
  "TIMESTAMP_FORMATS = [fmt_ymd_space, fmt_ymd_T, fmt_dmy_space]"

section \<open>The line parser (\<open>app/log_parser.py\<close>)\<close>

text \<open>
  A log entry is a dict with the keys below. \<open>log_level\<close> is \<open>None\<close> when no level was
  detected. \<open>timestamp\<close> is \<open>None\<close>, a \<open>datetime\<close> (as the parser and the database
  deliver it) or a \<open>str\<close> (as entries rebuilt from JSON carry it).
\<close>

datatype py_timestamp = TsDatetime datetime | TsStr string

record log_entry =
  line_number :: nat
  log_level :: "string option"
  timestamp :: "py_timestamp option"
  message :: string
  raw_line :: string

text \<open>\<open>LOG_LEVEL_PATTERNS\<close>, each pattern \<open>\bword\b\<close>, compiled with \<open>IGNORECASE\<close>.\<close>

definition rword :: "string \<Rightarrow> rx" where
  "rword w = rseq [RBound, rlit w, RBound]"

definition LOG_LEVEL_PATTERNS :: "(string \<times> rx list) list" where
  "LOG_LEVEL_PATTERNS =
     [(''ERROR'',
         [rword ''ERROR'', rword ''Error'',
          rseq [RBound, RSym (COr (CChar CHR ''E'') (CChar CHR ''e'')), rlit ''rror'', RBound],
          rword ''FATAL'', rword ''CRITICAL'', rword ''Exception'']),
      (''WARNING'', [rword ''WARNING'', rword ''Warning'', rword ''WARN'', rword ''Warn'']),
      (''INFO'', [rword ''INFO'', rword ''Info'', rword ''INFORMATION'']),
      (''DEBUG'', [rword ''DEBUG'', rword ''Debug''])]"

text \<open>\<open>self.compiled_level_patterns[level]\<close>; the program looks up the four keys only.\<close>

definition compiled_level_patterns :: "string \<Rightarrow> rx list" where
  "compiled_level_patterns level =
     (case map_of LOG_LEVEL_PATTERNS level of Some ps \<Rightarrow> ps | None \<Rightarrow> [])"

text \<open>\<open>TIMESTAMP_PATTERNS\<close>, compiled without flags.\<close>

definition rx_hms :: "rx list" where
  "rx_hms = [rdigits 2, rchar CHR '':'', rdigits 2, rchar CHR '':'', rdigits 2]"

definition rx_ymd :: "rx list" where
  "rx_ymd = [rdigits 4, rchar CHR ''-'', rdigits 2, rchar CHR ''-'', rdigits 2]"

definition TIMESTAMP_PATTERNS :: "rx list" where
  "TIMESTAMP_PATTERNS =
     [rseq (rx_ymd @ [rchar CHR '' ''] @ rx_hms),
      rseq (rx_ymd @ [rchar CHR ''T''] @ rx_hms),
      rseq ([rdigits 2, rchar CHR ''/'', rdigits 2, rchar CHR ''/'', rdigits 4, rchar CHR '' ''] @ rx_hms),
      rseq ([rchar CHR ''[''] @ rx_ymd @ [rchar CHR '' ''] @ rx_hms @ [rchar CHR '']''])]"

definition pattern_search :: "bool \<Rightarrow> rx \<Rightarrow> string \<Rightarrow> bool" where
  "pattern_search ic r s = (rx_search ic r s 0 \<noteq> None)"

definition detect_log_level :: "string \<Rightarrow> string option" where
  "detect_log_level line =
     find (\<lambda>level. list_ex (\<lambda>pattern. pattern_search True pattern line)
                           (compiled_level_patterns level))
          [''ERROR'', ''WARNING'', ''INFO'', ''DEBUG'']"

text \<open>
  The body of the loop of \<open>extract_timestamp\<close> for one pattern: when the pattern matches,
  the matched text without surrounding brackets is tried against the three formats in
  order, and the first that parses is returned. When none parses (each \<open>ValueError\<close> is
  caught and the inner loop ends), nothing is returned and the outer loop goes on. The
  outer \<open>except Exception\<close> is never entered: \<open>strptime\<close> on a \<open>str\<close> raises only
  \<open>ValueError\<close>.
\<close>

definition try_timestamp_pattern :: "string \<Rightarrow> rx \<Rightarrow> datetime option" where
  "try_timestamp_pattern line pattern =
     (case rx_search False pattern line 0 of
        None \<Rightarrow> None
      | Some m \<Rightarrow>
          let timestamp_str = py_strip_chars ''[]'' (span line (fst m) (fst (snd m)))
          in first_some (strptime timestamp_str) TIMESTAMP_FORMATS)"

definition extract_timestamp :: "string \<Rightarrow> datetime option" where
  "extract_timestamp line = first_some (try_timestamp_pattern line) TIMESTAMP_PATTERNS"

definition parse_line :: "string \<Rightarrow> nat \<Rightarrow> log_entry option" where
  "parse_line line0 idx =
     (let line = py_strip line0 in
      if line = [] then None
      else
        let level = detect_log_level line;
            ts = extract_timestamp line;
            message1 = (if ts \<noteq> None
                        then foldl (\<lambda>m pattern. py_strip (rx_sub_empty False pattern m))
                               line TIMESTAMP_PATTERNS
                        else line);
            message2 = (case level of
                          Some lv \<Rightarrow> foldl (\<lambda>m pattern. py_strip (rx_sub_empty True pattern m))
                                       message1 (compiled_level_patterns lv)
                        | None \<Rightarrow> message1);
            message3 = py_join '' '' (py_split message2)
        in Some \<lparr>line_number = idx, log_level = level, timestamp = map_option TsDatetime ts,
                  message = (if message3 \<noteq> [] then message3 else line),
                  raw_line = line\<rparr>)"

text \<open>\<open>parse_file\<close>: the lines are numbered from 1; a line for which \<open>parse_line\<close>
  returns \<open>None\<close> adds nothing.\<close>

fun parse_lines :: "nat \<Rightarrow> string list \<Rightarrow> log_entry list" where
  "parse_lines idx [] = []"
| "parse_lines idx (line # rest) =
     (case parse_line line idx of
        Some parsed \<Rightarrow> parsed # parse_lines (Suc idx) rest
      | None \<Rightarrow> parse_lines (Suc idx) rest)"

definition parse_file :: "string \<Rightarrow> log_entry list" where
  "parse_file file_content = parse_lines 1 (py_split_on CHR 0x0A file_content)"

section \<open>The statistics (\<open>app/analyzer.py\<close>)\<close>

text \<open>
  \<open>collections.Counter\<close>, as the list of its items in insertion order (the order of
  first occurrence). \<open>counter_add\<close> counts one more occurrence of a key.
\<close>

fun counter_add :: "'a \<Rightarrow> ('a \<times> nat) list \<Rightarrow> ('a \<times> nat) list" where
  "counter_add x [] = [(x, 1)]"
| "counter_add x (kv # rest) =
     (if fst kv = x then (fst kv, Suc (snd kv)) # rest else kv # counter_add x rest)"

definition Counter :: "'a list \<Rightarrow> ('a \<times> nat) list" where
  "Counter xs = foldl (\<lambda>c x. counter_add x c) [] xs"

text \<open>\<open>counter.get(key, 0)\<close>.\<close>

definition counter_get :: "('a \<times> nat) list \<Rightarrow> 'a \<Rightarrow> nat" where
  "counter_get c k = (case map_of c k of Some n \<Rightarrow> n | None \<Rightarrow> 0)"

text \<open>\<open>counter.most_common(n)\<close>: the \<open>n\<close> items of highest count, items of equal count
  in insertion order (a stable sort by descending count).\<close>

definition most_common :: "nat \<Rightarrow> ('a \<times> nat) list \<Rightarrow> ('a \<times> nat) list" where
  "most_common n c = take n (sort_key (\<lambda>kv. - int (snd kv)) c)"

text \<open>\<open>str(n)\<close> for a natural number.\<close>

fun str_nat :: "nat \<Rightarrow> string" where
  "str_nat n = (if n < 10 then [char_of (48 + n)] else str_nat (n div 10) @ [char_of (48 + n mod 10)])"

declare str_nat.simps [simp del]

text \<open>\<open>s.replace("Z", "+00:00")\<close>.\<close>

definition replace_Z :: "string \<Rightarrow> string" where
  "replace_Z s = concat (map (\<lambda>c. if c = CHR ''Z'' then ''+00:00'' else [c]) s)"

text \<open>
  Floating-point numbers are a type \<open>'f\<close> that is not modelled further; the two float
  computations of the program are parameters: \<open>fl_percent a b\<close> is \<open>(a / b) * 100\<close> and
  \<open>fl_round2 x\<close> is \<open>round(x, 2)\<close>.
\<close>

record 'f float_ops =
  fl_percent :: "nat \<Rightarrow> nat \<Rightarrow> 'f"
  fl_round2 :: "'f \<Rightarrow> 'f"

record 'p top_message =
  tm_message :: string
  tm_count :: nat
  tm_percentage :: 'p

record 'p analysis =
  total_entries :: nat
  error_count :: nat
  warning_count :: nat
  info_count :: nat
  debug_count :: nat
  top_errors :: "'p top_message list"
  top_warnings :: "'p top_message list"
  time_distribution :: "(string \<times> nat) list"

text \<open>
  \<open>_get_top_messages\<close>. (The \<open>else 0\<close> of the percentage is dead code: \<open>messages\<close> is not
  empty there.)
\<close>

definition get_top_messages ::
    "'f float_ops \<Rightarrow> string list \<Rightarrow> nat \<Rightarrow> 'f top_message list" where
  "get_top_messages fl messages limit =
     (if messages = [] then []
      else
        let normalized = map (\<lambda>msg. py_strip (py_lower msg))
                           (filter (\<lambda>msg. py_strip msg \<noteq> []) messages);
            counter = Counter normalized;
            top_items = most_common limit counter
        in map (\<lambda>item. \<lparr>tm_message = fst item, tm_count = snd item,
                          tm_percentage = fl_round2 fl (fl_percent fl (snd item) (length messages))\<rparr>)
               top_items)"

text \<open>
  The hour of an entry in \<open>_get_time_distribution\<close>: none for a missing or empty
  timestamp, none for a \<open>str\<close> that \<open>datetime.fromisoformat\<close> rejects (the parameter
  \<open>fromisoformat\<close>, \<open>None\<close> for its exception).
\<close>

definition entry_hour :: "(string \<Rightarrow> datetime option) \<Rightarrow> log_entry \<Rightarrow> nat option" where
  "entry_hour fromisoformat entry =
     (case timestamp entry of
        None \<Rightarrow> None
      | Some (TsStr s) \<Rightarrow>
          if s = [] then None else map_option dt_hour (fromisoformat (replace_Z s))
      | Some (TsDatetime d) \<Rightarrow> Some (dt_hour d))"

definition get_time_distribution ::
    "(string \<Rightarrow> datetime option) \<Rightarrow> log_entry list \<Rightarrow> (string \<times> nat) list" where
  "get_time_distribution fromisoformat log_entries =
     foldl (\<lambda>hour_counts entry.
              case entry_hour fromisoformat entry of
                None \<Rightarrow> hour_counts
              | Some hour \<Rightarrow> counter_add (str_nat hour) hour_counts)
           [] log_entries"

definition empty_analysis :: "'p analysis" where
  "empty_analysis =
     \<lparr>total_entries = 0, error_count = 0, warning_count = 0, info_count = 0, debug_count = 0,
      top_errors = [], top_warnings = [], time_distribution = []\<rparr>"

definition analyze ::
    "'f float_ops \<Rightarrow> (string \<Rightarrow> datetime option) \<Rightarrow> log_entry list \<Rightarrow> 'f analysis" where
  "analyze fl fromisoformat log_entries =
     (if log_entries = [] then empty_analysis
      else
        let level_counts = Counter (map log_level log_entries);
            error_messages = map message
              (filter (\<lambda>entry. log_level entry = Some ''ERROR'') log_entries);
            warning_messages = map message
              (filter (\<lambda>entry. log_level entry = Some ''WARNING'') log_entries)
        in \<lparr>total_entries = length log_entries,
            error_count = counter_get level_counts (Some ''ERROR''),
            warning_count = counter_get level_counts (Some ''WARNING''),
            info_count = counter_get level_counts (Some ''INFO''),
            debug_count = counter_get level_counts (Some ''DEBUG''),
            top_errors = get_top_messages fl error_messages 10,
            top_warnings = get_top_messages fl warning_messages 10,
            time_distribution = get_time_distribution fromisoformat log_entries\<rparr>)"

text \<open>The four named levels.\<close>

definition named_levels :: "string option set" where
  "named_levels = {Some ''ERROR'', Some ''WARNING'', Some ''INFO'', Some ''DEBUG''}"

text \<open>Exact rational arithmetic without rounding: an instance of the float parameters, to
  run the model on examples.\<close>

definition exact_floats :: "rat float_ops" where
  "exact_floats = \<lparr>fl_percent = (\<lambda>a b. of_nat a / of_nat b * 100), fl_round2 = (\<lambda>x. x)\<rparr>"

section \<open>Anomaly detection (\<open>app/ml/anomaly_detection.py\<close>)\<close>

text \<open>\<open>needle in haystack\<close> for strings.\<close>

fun starts_with :: "string \<Rightarrow> string \<Rightarrow> bool" where
  "starts_with [] s = True"
| "starts_with (c # cs) [] = False"
| "starts_with (c # cs) (d # ds) = (c = d \<and> starts_with cs ds)"

fun py_in :: "string \<Rightarrow> string \<Rightarrow> bool" where
  "py_in needle [] = (needle = [])"
| "py_in needle (c # cs) = (starts_with needle (c # cs) \<or> py_in needle cs)"

text \<open>\<open>datetime.weekday()\<close>: Monday is 0. The ordinal of a date counts the days from
  0001-01-01, which has ordinal 1 and is a Monday.\<close>

definition days_before_year :: "nat \<Rightarrow> nat" where
  "days_before_year y = (y - 1) * 365 + (y - 1) div 4 - (y - 1) div 100 + (y - 1) div 400"

definition days_before_month :: "nat \<Rightarrow> nat \<Rightarrow> nat" where
  "days_before_month y m = sum_list (map (days_in_month y) [1..<m])"

definition toordinal :: "datetime \<Rightarrow> nat" where
  "toordinal d = days_before_year (dt_year d) + days_before_month (dt_year d) (dt_month d) + dt_day d"

definition weekday :: "datetime \<Rightarrow> nat" where
  "weekday d = (toordinal d + 6) mod 7"

definition error_keywords :: "string list" where
  "error_keywords = [''error'', ''exception'', ''failed'', ''timeout'', ''deadlock'', ''crash'']"

text \<open>The timestamp of an entry as \<open>extract_features\<close> reads it: a \<open>str\<close> is parsed, and
  whatever is then no \<open>datetime\<close> gives the defaults.\<close>

definition entry_datetime :: "(string \<Rightarrow> datetime option) \<Rightarrow> log_entry \<Rightarrow> datetime option" where
  "entry_datetime fromisoformat entry =
     (case timestamp entry of
        None \<Rightarrow> None
      | Some (TsStr s) \<Rightarrow> if s = [] then None else fromisoformat (replace_Z s)
      | Some (TsDatetime d) \<Rightarrow> Some d)"

definition level_encoded :: "string option \<Rightarrow> nat" where
  "level_encoded lv =
     (case map_of [(Some ''ERROR'', 3), (Some ''WARNING'', 2), (Some ''INFO'', 1), (Some ''DEBUG'', 0)] lv of
        Some n \<Rightarrow> n | None \<Rightarrow> 1)"

definition entry_features :: "(string \<Rightarrow> datetime option) \<Rightarrow> log_entry \<Rightarrow> nat list" where
  "entry_features fromisoformat entry =
     (let dt = entry_datetime fromisoformat entry;
          hour = (case dt of Some d \<Rightarrow> dt_hour d | None \<Rightarrow> 12);
          day_of_week = (case dt of Some d \<Rightarrow> weekday d | None \<Rightarrow> 0);
          message_lower = py_lower (message entry);
          has_error_keywords = list_ex (\<lambda>keyword. py_in keyword message_lower) error_keywords
      in [hour, day_of_week, level_encoded (log_level entry), length (message entry),
          if has_error_keywords then 1 else 0])"

definition extract_features :: "(string \<Rightarrow> datetime option) \<Rightarrow> log_entry list \<Rightarrow> nat list list" where
  "extract_features fromisoformat log_entries = map (entry_features fromisoformat) log_entries"

text \<open>
  The scikit-learn pipeline (\<open>StandardScaler.fit_transform\<close>, \<open>IsolationForest.fit_predict\<close>,
  \<open>score_samples\<close>) is a parameter: from the contamination and the feature matrix it gives,
  for each row, the prediction (\<open>-1\<close> anomaly, \<open>1\<close> normal) and the score, or an exception.
\<close>

type_synonym ('c, 'f) sklearn = "'c \<Rightarrow> nat list list \<Rightarrow> string + (int \<times> 'f) list"

record 'f anomaly =
  an_entry :: log_entry
  anomaly_score :: 'f
  an_index :: nat

definition detect_anomalies ::
    "('c, 'f :: linorder) sklearn \<Rightarrow> (string \<Rightarrow> datetime option) \<Rightarrow> 'c \<Rightarrow> log_entry list
       \<Rightarrow> string + 'f anomaly list" where
  "detect_anomalies model fromisoformat contamination log_entries =
     (if length log_entries < 10 then Inr []
      else
        case model contamination (extract_features fromisoformat log_entries) of
          Inl err \<Rightarrow> Inl err
        | Inr predictions \<Rightarrow>
            Inr (sort_key anomaly_score
                   (map (\<lambda>row. \<lparr>an_entry = fst (snd row), anomaly_score = snd (snd (snd row)),
                                  an_index = fst row\<rparr>)
                      (filter (\<lambda>row. fst (snd (snd row)) = - 1)
                         (zip [0..<length log_entries] (zip log_entries predictions))))))"

text \<open>The texts of \<open>_get_recommendation\<close>, by name.\<close>

datatype recommendation = HighRate | MediumRate | LowRate | VeryLowRate

definition get_recommendation :: "('f :: {linorder, numeral}) float_ops \<Rightarrow> nat \<Rightarrow> nat \<Rightarrow> recommendation" where
  "get_recommendation fl anomaly_count total_count =
     (let percentage = fl_percent fl anomaly_count total_count in
      if percentage > 20 then HighRate
      else if percentage > 10 then MediumRate
      else if percentage > 5 then LowRate
      else VeryLowRate)"

record 'f top_anomaly =
  ta_line_number :: nat
  ta_log_level :: "string option"
  ta_message :: string
  ta_timestamp :: "py_timestamp option"
  ta_anomaly_score :: 'f

text \<open>The summary dict. A key that one of the two shapes of the dict lacks is \<open>None\<close>.\<close>

record 'f anomaly_summary =
  has_anomalies :: bool
  anomaly_count :: nat
  anomaly_percentage :: 'f
  anomalies :: "'f anomaly list option"
  as_total_entries :: "nat option"
  top_anomalies :: "'f top_anomaly list option"
  as_recommendation :: "recommendation option"

definition get_anomaly_summary ::
    "('c, 'f :: {linorder, numeral, zero}) sklearn \<Rightarrow> 'f float_ops \<Rightarrow> (string \<Rightarrow> datetime option)
       \<Rightarrow> 'c \<Rightarrow> log_entry list \<Rightarrow> string + 'f anomaly_summary" where
  "get_anomaly_summary model fl fromisoformat contamination log_entries =
     (case detect_anomalies model fromisoformat contamination log_entries of
        Inl err \<Rightarrow> Inl err
      | Inr found \<Rightarrow>
          if found = [] then
            Inr \<lparr>has_anomalies = False, anomaly_count = 0, anomaly_percentage = 0,
                 anomalies = Some [], as_total_entries = None, top_anomalies = None,
                 as_recommendation = None\<rparr>
          else
            let anomaly_count = length found;
                total_count = length log_entries;
                top = map (\<lambda>anom.
                        \<lparr>ta_line_number = line_number (an_entry anom),
                         ta_log_level = log_level (an_entry anom),
                         ta_message = take 200 (message (an_entry anom)),
                         ta_timestamp = timestamp (an_entry anom),
                         ta_anomaly_score = anomaly_score anom\<rparr>) (take 10 found)
            in Inr \<lparr>has_anomalies = True, anomaly_count = anomaly_count,
                    anomaly_percentage = fl_round2 fl (fl_percent fl anomaly_count total_count),
                    anomalies = None, as_total_entries = Some total_count,
                    top_anomalies = Some top,
                    as_recommendation = Some (get_recommendation fl anomaly_count total_count)\<rparr>)"

section \<open>\<open>difflib.SequenceMatcher\<close>\<close>

text \<open>
  \<open>SequenceMatcher(None, a, b)\<close>: no junk test, \<open>autojunk\<close> on. When \<open>b\<close> has 200 or more
  elements, the elements that occur more than \<open>len(b) // 100 + 1\<close> times are "popular"
  and are left out of the index \<open>b2j\<close>.
\<close>

definition popular :: "string \<Rightarrow> char set" where
  "popular b =
     (if 200 \<le> length b
      then {c \<in> set b. length b div 100 + 1 < count_list b c}
      else {})"

text \<open>The indices \<open>j\<close> of \<open>b2j[a[i]]\<close> that the inner loop of \<open>find_longest_match\<close>
  visits: those with \<open>blo <= j < bhi\<close>, in increasing order.\<close>

definition b2j_range :: "string \<Rightarrow> char \<Rightarrow> nat \<Rightarrow> nat \<Rightarrow> nat list" where
  "b2j_range b c blo bhi =
     (if c \<in> popular b then [] else filter (\<lambda>j. b ! j = c) [blo..<bhi])"

text \<open>\<open>j2len.get(j - 1, 0)\<close>; the key \<open>-1\<close> is never present.\<close>

definition j2len_get :: "(nat \<times> nat) list \<Rightarrow> nat \<Rightarrow> nat" where
  "j2len_get j2len j =
     (if j = 0 then 0 else case map_of j2len (j - 1) of Some k \<Rightarrow> k | None \<Rightarrow> 0)"

text \<open>A match \<open>(besti, bestj, bestsize)\<close>.\<close>

type_synonym match = "nat \<times> nat \<times> nat"

text \<open>One element \<open>a[i]\<close> of the outer loop: the new \<open>j2len\<close>, and the best match after
  the updates \<open>if k > bestsize\<close> for the visited \<open>j\<close> in order.\<close>

definition better :: "nat \<Rightarrow> match \<Rightarrow> nat \<times> nat \<Rightarrow> match" where
  "better i best jk =
     (if snd (snd best) < snd jk then (i + 1 - snd jk, fst jk + 1 - snd jk, snd jk) else best)"

definition flm_row ::
    "string \<Rightarrow> string \<Rightarrow> nat \<Rightarrow> nat \<Rightarrow> match \<times> (nat \<times> nat) list \<Rightarrow> nat
       \<Rightarrow> match \<times> (nat \<times> nat) list" where
  "flm_row a b blo bhi st i =
     (let newj2len = map (\<lambda>j. (j, j2len_get (snd st) j + 1)) (b2j_range b (a ! i) blo bhi)
      in (foldl (better i) (fst st) newj2len, newj2len))"

text \<open>The two loops that extend the match by equal elements at each end (they can add
  popular elements; with no junk the two further loops for junk never run).\<close>

function extend_left :: "string \<Rightarrow> string \<Rightarrow> nat \<Rightarrow> nat \<Rightarrow> match \<Rightarrow> match" where
  "extend_left a b alo blo m =
     (if alo < fst m \<and> blo < fst (snd m) \<and> a ! (fst m - 1) = b ! (fst (snd m) - 1)
      then extend_left a b alo blo (fst m - 1, fst (snd m) - 1, snd (snd m) + 1)
      else m)"
  by pat_completeness auto
termination
  by (relation "measure (\<lambda>(a, b, alo, blo, m). fst m)") auto

declare extend_left.simps [simp del]

function extend_right :: "string \<Rightarrow> string \<Rightarrow> nat \<Rightarrow> nat \<Rightarrow> match \<Rightarrow> match" where
  "extend_right a b ahi bhi m =
     (if fst m + snd (snd m) < ahi \<and> fst (snd m) + snd (snd m) < bhi \<and>
         a ! (fst m + snd (snd m)) = b ! (fst (snd m) + snd (snd m))
      then extend_right a b ahi bhi (fst m, fst (snd m), snd (snd m) + 1)
      else m)"
  by pat_completeness auto
termination
  by (relation "measure (\<lambda>(a, b, ahi, bhi, m). ahi - (fst m + snd (snd m)))") auto

declare extend_right.simps [simp del]

definition find_longest_match :: "string \<Rightarrow> string \<Rightarrow> nat \<Rightarrow> nat \<Rightarrow> nat \<Rightarrow> nat \<Rightarrow> match" where
  "find_longest_match a b alo ahi blo bhi =
     extend_right a b ahi bhi
       (extend_left a b alo blo
          (fst (foldl (flm_row a b blo bhi) ((alo, blo, 0), []) [alo..<ahi])))"

text \<open>The bounds of a match within \<open>a[alo:ahi]\<close> and \<open>b[blo:bhi]\<close>.\<close>

definition match_within :: "nat \<Rightarrow> nat \<Rightarrow> nat \<Rightarrow> nat \<Rightarrow> match \<Rightarrow> bool" where
  "match_within alo ahi blo bhi m =
     (alo \<le> fst m \<and> blo \<le> fst (snd m) \<and>
      fst m + snd (snd m) \<le> max ahi alo \<and> fst (snd m) + snd (snd m) \<le> max bhi blo)"

definition row_within :: "nat \<Rightarrow> nat \<Rightarrow> nat \<Rightarrow> nat \<Rightarrow> (nat \<times> nat) list \<Rightarrow> bool" where
  "row_within alo blo bhi i j2len =
     (\<forall>jk \<in> set j2len. 1 \<le> snd jk \<and> snd jk + alo \<le> i \<and> snd jk + blo \<le> fst jk + 1 \<and> fst jk < bhi)"

lemma j2len_get_within:
  assumes "row_within alo blo bhi i j2len" "blo \<le> j"
  shows "j2len_get j2len j + alo \<le> i \<or> j2len_get j2len j = 0"
    and "j2len_get j2len j + blo \<le> j"
proof -
  show "j2len_get j2len j + alo \<le> i \<or> j2len_get j2len j = 0"
  proof (cases "j = 0")
    case True
    then show ?thesis by (simp add: j2len_get_def)
  next
    case False
    show ?thesis
    proof (cases "map_of j2len (j - 1)")
      case None
      with False show ?thesis by (simp add: j2len_get_def)
    next
      case (Some k)
      then have "(j - 1, k) \<in> set j2len" by (rule map_of_SomeD)
      with assms(1) have "k + alo \<le> i" by (auto simp: row_within_def)
      with Some False show ?thesis by (simp add: j2len_get_def)
    qed
  qed
  show "j2len_get j2len j + blo \<le> j"
  proof (cases "j = 0")
    case True
    with assms(2) show ?thesis by (simp add: j2len_get_def)
  next
    case False
    show ?thesis
    proof (cases "map_of j2len (j - 1)")
      case None
      with False assms(2) show ?thesis by (simp add: j2len_get_def)
    next
      case (Some k)
      then have "(j - 1, k) \<in> set j2len" by (rule map_of_SomeD)
      with assms(1) have "k + blo \<le> j - 1 + 1" by (auto simp: row_within_def)
      with Some False show ?thesis by (simp add: j2len_get_def)
    qed
  qed
qed

lemma foldl_better_within:
  assumes "match_within alo ahi blo bhi best" "row_within alo blo bhi (Suc i) new" "i < ahi"
  shows "match_within alo ahi blo bhi (foldl (better i) best new)"
  using assms
proof (induction new arbitrary: best)
  case Nil
  then show ?case by simp
next
  case (Cons jk new)
  from Cons.prems(2) have jk: "1 \<le> snd jk" "snd jk + alo \<le> Suc i" "snd jk + blo \<le> fst jk + 1"
      "fst jk < bhi" and rest: "row_within alo blo bhi (Suc i) new"
    by (auto simp: row_within_def)
  have "match_within alo ahi blo bhi (better i best jk)"
    using Cons.prems(1) jk Cons.prems(3) by (auto simp: better_def match_within_def)
  from Cons.IH[OF this rest Cons.prems(3)] show ?case by simp
qed

lemma flm_row_within:
  assumes "match_within alo ahi blo bhi (fst st)" "row_within alo blo bhi i (snd st)"
      "alo \<le> i" "i < ahi"
  shows "match_within alo ahi blo bhi (fst (flm_row a b blo bhi st i)) \<and>
         row_within alo blo bhi (Suc i) (snd (flm_row a b blo bhi st i))"
proof -
  let ?new = "map (\<lambda>j. (j, j2len_get (snd st) j + 1)) (b2j_range b (a ! i) blo bhi)"
  have r: "row_within alo blo bhi (Suc i) ?new"
    unfolding row_within_def
  proof
    fix jk assume "jk \<in> set ?new"
    then obtain j where j: "jk = (j, j2len_get (snd st) j + 1)" "j \<in> set (b2j_range b (a ! i) blo bhi)"
      by auto
    from j(2) have b: "blo \<le> j" "j < bhi" by (auto simp: b2j_range_def split: if_splits)
    from j2len_get_within[OF assms(2) b(1)] assms(3) j(1) b
    show "1 \<le> snd jk \<and> snd jk + alo \<le> Suc i \<and> snd jk + blo \<le> fst jk + 1 \<and> fst jk < bhi"
      by auto
  qed
  from foldl_better_within[OF assms(1) r assms(4)] r show ?thesis
    by (simp add: flm_row_def Let_def)
qed

lemma flm_loop_within:
  assumes "alo \<le> n" "n \<le> ahi"
  shows "match_within alo ahi blo bhi (fst (foldl (flm_row a b blo bhi) ((alo, blo, 0), []) [alo..<n])) \<and>
         row_within alo blo bhi n (snd (foldl (flm_row a b blo bhi) ((alo, blo, 0), []) [alo..<n]))"
  using assms
proof (induction n)
  case 0
  then show ?case by (simp add: match_within_def row_within_def)
next
  case (Suc n)
  show ?case
  proof (cases "alo \<le> n")
    case False
    with Suc.prems have "alo = Suc n" by simp
    then show ?thesis by (simp add: match_within_def row_within_def)
  next
    case True
    with Suc have ih: "match_within alo ahi blo bhi
          (fst (foldl (flm_row a b blo bhi) ((alo, blo, 0), []) [alo..<n]))"
        "row_within alo blo bhi n (snd (foldl (flm_row a b blo bhi) ((alo, blo, 0), []) [alo..<n]))"
      by simp_all
    from Suc.prems have "n < ahi" by simp
    from flm_row_within[OF ih True this, of a b] True show ?thesis by simp
  qed
qed

lemma extend_left_within:
  "match_within alo ahi blo bhi m \<Longrightarrow> match_within alo ahi blo bhi (extend_left a b alo blo m)"
proof (induction a b alo blo m rule: extend_left.induct)
  case (1 a b alo blo m)
  show ?case
  proof (cases "alo < fst m \<and> blo < fst (snd m) \<and> a ! (fst m - 1) = b ! (fst (snd m) - 1)")
    case True
    with "1.prems" have "match_within alo ahi blo bhi (fst m - 1, fst (snd m) - 1, snd (snd m) + 1)"
      by (auto simp: match_within_def)
    from "1.IH"[OF True this] True show ?thesis by (subst extend_left.simps) simp
  next
    case False
    with "1.prems" show ?thesis by (subst extend_left.simps) auto
  qed
qed

lemma extend_right_within:
  "match_within alo ahi blo bhi m \<Longrightarrow> match_within alo ahi blo bhi (extend_right a b ahi bhi m)"
proof (induction a b ahi bhi m rule: extend_right.induct)
  case (1 a b ahi bhi m)
  let ?c = "fst m + snd (snd m) < ahi \<and> fst (snd m) + snd (snd m) < bhi \<and>
         a ! (fst m + snd (snd m)) = b ! (fst (snd m) + snd (snd m))"
  show ?case
  proof (cases ?c)
    case True
    with "1.prems" have "match_within alo ahi blo bhi (fst m, fst (snd m), snd (snd m) + 1)"
      by (auto simp: match_within_def)
    from "1.IH"[OF True this] True show ?thesis by (subst extend_right.simps) simp
  next
    case False
    with "1.prems" show ?thesis by (subst extend_right.simps) auto
  qed
qed

lemma find_longest_match_within:
  "match_within alo ahi blo bhi (find_longest_match a b alo ahi blo bhi)"
proof -
  let ?m = "fst (foldl (flm_row a b blo bhi) ((alo, blo, 0), []) [alo..<ahi])"
  have "match_within alo ahi blo bhi ?m"
  proof (cases "alo \<le> ahi")
    case True
    from flm_loop_within[OF True order_refl, of blo bhi a b] show ?thesis by simp
  next
    case False
    then show ?thesis by (simp add: match_within_def)
  qed
  then show ?thesis
    unfolding find_longest_match_def by (intro extend_right_within extend_left_within)
qed

lemma find_longest_match_bounds:
  assumes "find_longest_match a b alo ahi blo bhi = (i, j, k)" "k \<noteq> 0"
  shows "alo \<le> i \<and> i + k \<le> ahi \<and> blo \<le> j \<and> j + k \<le> bhi"
proof -
  from find_longest_match_within[of alo ahi blo bhi a b] assms(1)
  have w: "alo \<le> i" "blo \<le> j" "i + k \<le> max ahi alo" "j + k \<le> max bhi blo"
    by (simp_all add: match_within_def)
  with assms(2) show ?thesis by (auto simp: max_def split: if_splits)
qed

text \<open>
  \<open>get_matching_blocks\<close>: the longest match of the range, then the blocks of the ranges
  to its left and to its right. (The program works through a stack of ranges and sorts
  the blocks at the end; the recursion lists them in that sorted order.)
\<close>

function matching_blocks :: "string \<Rightarrow> string \<Rightarrow> nat \<Rightarrow> nat \<Rightarrow> nat \<Rightarrow> nat \<Rightarrow> match list" where
  "matching_blocks a b alo ahi blo bhi =
     (case find_longest_match a b alo ahi blo bhi of
        (i, j, k) \<Rightarrow>
          if k = 0 then []
          else (if alo < i \<and> blo < j then matching_blocks a b alo i blo j else []) @
               [(i, j, k)] @
               (if i + k < ahi \<and> j + k < bhi then matching_blocks a b (i + k) ahi (j + k) bhi
                else []))"
  by pat_completeness auto
termination
proof (relation "measure (\<lambda>(a, b, alo, ahi, blo, bhi). ahi - alo)", goal_cases)
  case 1
  show ?case by simp
next
  case (2 a b alo ahi blo bhi i y j k)
  then have "find_longest_match a b alo ahi blo bhi = (i, j, k)" by simp
  from find_longest_match_bounds[OF this] 2 show ?case by auto
next
  case (3 a b alo ahi blo bhi i y j k)
  then have "find_longest_match a b alo ahi blo bhi = (i, j, k)" by simp
  from find_longest_match_bounds[OF this] 3 show ?case by auto
qed

declare matching_blocks.simps [simp del]

text \<open>\<open>ratio()\<close>: twice the number of matched elements over the total length. The
  floating-point numbers of the similarity are modelled as exact rationals.\<close>

definition ratio :: "string \<Rightarrow> string \<Rightarrow> rat" where
  "ratio a b =
     (let matches = sum_list (map (\<lambda>m. snd (snd m)) (matching_blocks a b 0 (length a) 0 (length b)));
          len = length a + length b
      in if len = 0 then 1 else 2 * of_nat matches / of_nat len)"

section \<open>Pattern detection (\<open>app/pattern_detection.py\<close>)\<close>

text \<open>\<open>calculate_similarity\<close>: \<open>0.4\<close> times the Jaccard similarity of the two sets of
  words plus \<open>0.6\<close> times the sequence ratio. A set of words is a list without
  duplicates. The arithmetic here is exact, on rationals, where the program computes in
  double precision: the two can differ by a rounding error, so that a value that is
  exactly the threshold here (\<open>2/5\<close> for \<open>a\<close> and \<open>aa\<close>) may fall just below it in
  the program. The general properties of the grouper below are proved for every
  similarity test; the one example computed with this arithmetic has similarities
  \<open>6/25\<close>, \<open>18/35\<close>, \<open>0\<close> and \<open>1\<close>, far from the thresholds \<open>0.1\<close> and \<open>0.4\<close>.\<close>

definition calculate_similarity :: "string \<Rightarrow> string \<Rightarrow> rat" where
  "calculate_similarity str1 str2 =
     (if str1 = [] \<or> str2 = [] then 0
      else
        let words1 = remdups (py_split str1);
            words2 = remdups (py_split str2)
        in if words1 = [] \<or> words2 = [] then 0
           else
             let intersection = length (filter (\<lambda>w. w \<in> set words2) words1);
                 union = length (remdups (words1 @ words2));
                 jaccard = (if 0 < union then of_nat intersection / of_nat union else 0);
                 sequence_similarity = ratio str1 str2
             in jaccard * (4 / 10) + sequence_similarity * (6 / 10))"

text \<open>The test \<open>similarity >= min_similarity\<close> of the grouping.\<close>

definition at_least :: "rat \<Rightarrow> string \<Rightarrow> string \<Rightarrow> bool" where
  "at_least min_similarity message1 message2 =
     (min_similarity \<le> calculate_similarity message1 message2)"

text \<open>
  A similarity group. Each member is kept together with its position in the batch, which
  identifies the dict the program's list refers to; \<open>g_entries\<close> is the list of dicts
  itself. \<open>g_log_level\<close> is the seed's level (the default \<open>"UNKNOWN"\<close> is for a dict
  without the key).
\<close>

record similarity_group =
  g_id :: nat
  representative :: string
  g_count :: nat
  g_log_level :: "string option"
  g_members :: "(nat \<times> log_entry) list"
  similarity_score :: rat

definition g_entries :: "similarity_group \<Rightarrow> log_entry list" where
  "g_entries g = map snd (g_members g)"

text \<open>
  The inner loop of \<open>group_similar_errors\<close> over the later entries \<open>(j, entry2)\<close>:
  the members it adds and the set \<open>processed\<close> afterwards. The test of similarity is
  the parameter \<open>similar\<close>; the program's is \<open>at_least min_similarity\<close>.
\<close>

fun scan_candidates ::
    "(string \<Rightarrow> string \<Rightarrow> bool) \<Rightarrow> string \<Rightarrow> (nat \<times> log_entry) list \<Rightarrow> nat set
       \<Rightarrow> (nat \<times> log_entry) list \<times> nat set" where
  "scan_candidates similar message1 [] processed = ([], processed)"
| "scan_candidates similar message1 (je # later) processed =
     (if fst je \<in> processed then scan_candidates similar message1 later processed
      else
        let message2 = py_lower (message (snd je)) in
        if message2 = [] then scan_candidates similar message1 later processed
        else if similar message1 message2
        then (case scan_candidates similar message1 later (insert (fst je) processed) of
                (found, processed') \<Rightarrow> (je # found, processed'))
        else scan_candidates similar message1 later processed)"

text \<open>The outer loop over the entries \<open>(i, entry1)\<close> still to visit, with the groups
  kept so far and the set \<open>processed\<close>.\<close>

fun group_loop ::
    "(string \<Rightarrow> string \<Rightarrow> bool) \<Rightarrow> (nat \<times> log_entry) list \<Rightarrow> similarity_group list \<Rightarrow> nat set
       \<Rightarrow> similarity_group list" where
  "group_loop similar [] groups processed = groups"
| "group_loop similar (ie # later) groups processed =
     (if fst ie \<in> processed then group_loop similar later groups processed
      else
        let message1 = py_lower (message (snd ie)) in
        if message1 = [] then group_loop similar later groups processed
        else
          case scan_candidates similar message1 later processed of
            (found, processed') \<Rightarrow>
              let group = \<lparr>g_id = length groups + 1,
                           representative = take 100 (message (snd ie)),
                           g_count = 1 + length found,
                           g_log_level = log_level (snd ie),
                           g_members = ie # found,
                           similarity_score = 1\<rparr>
              in if 1 < g_count group
                 then group_loop similar later (groups @ [group]) (insert (fst ie) processed')
                 else group_loop similar later groups processed')"

text \<open>\<open>enumerate(log_entries)\<close>.\<close>

definition enumerate_from0 :: "'a list \<Rightarrow> (nat \<times> 'a) list" where
  "enumerate_from0 xs = zip [0..<length xs] xs"

text \<open>The groups sorted by descending count (a stable sort), the first 20 returned.\<close>

definition group_similar_errors_with ::
    "(string \<Rightarrow> string \<Rightarrow> bool) \<Rightarrow> log_entry list \<Rightarrow> similarity_group list" where
  "group_similar_errors_with similar log_entries =
     (if log_entries = [] then []
      else take 20 (sort_key (\<lambda>g. - int (g_count g))
                      (group_loop similar (enumerate_from0 log_entries) [] {})))"

definition group_similar_errors :: "log_entry list \<Rightarrow> rat \<Rightarrow> similarity_group list" where
  "group_similar_errors log_entries min_similarity =
     group_similar_errors_with (at_least min_similarity) log_entries"

















text \<open>An entry for the examples.\<close>

definition example_entry :: "string \<Rightarrow> string \<Rightarrow> log_entry" where
  "example_entry lv m =
     \<lparr>line_number = 1, log_level = Some lv, timestamp = None, message = m, raw_line = m\<rparr>"

section \<open>The claims about the line parser, as stated\<close>

text \<open>
  Timestamp detection as claim C2 words it: the first shape whose pattern matches
  anywhere in the line wins, the matched text is parsed with the format of that shape
  (the bracketed shape wraps the first), and a parse failure gives no timestamp, with no
  retry of the later shapes.
\<close>

definition TIMESTAMP_SHAPES :: "(rx \<times> directive list) list" where
  "TIMESTAMP_SHAPES =
     zip TIMESTAMP_PATTERNS [fmt_ymd_space, fmt_ymd_T, fmt_dmy_space, fmt_ymd_space]"

fun first_shape_wins :: "(rx \<times> directive list) list \<Rightarrow> string \<Rightarrow> datetime option" where
  "first_shape_wins [] line = None"
| "first_shape_wins (shape # rest) line =
     (case rx_search False (fst shape) line 0 of
        None \<Rightarrow> first_shape_wins rest line
      | Some m \<Rightarrow>
          strptime (py_strip_chars ''[]'' (span line (fst m) (fst (snd m)))) (snd shape))"

definition extract_timestamp_spec :: "string \<Rightarrow> datetime option" where
  "extract_timestamp_spec line = first_shape_wins TIMESTAMP_SHAPES line"

text \<open>
  The end of the match a pattern prefers from a position of a text, if it matches there.
\<close>

definition match_end :: "bool \<Rightarrow> rx \<Rightarrow> string \<Rightarrow> nat \<Rightarrow> nat option" where
  "match_end ic p s b = (case rx_ends ic s p (b, []) of [] \<Rightarrow> None | m # _ \<Rightarrow> Some (fst m))"

text \<open>
  Claim C2, amended, describes the attempt for one timestamp shape. \<open>matched_text\<close> is
  the text the shape's pattern matches from a position. \<open>strip_brackets\<close> removes the
  square brackets around a text. \<open>parses_in_order\<close> relates a text to the result of
  the three formats tried in order: the first format that parses it decides.
  \<open>shape_gives p line r\<close> holds when \<open>r\<close> is the outcome for the shape \<open>p\<close>: nothing
  when the pattern matches nowhere in the line; otherwise what the three formats make of
  the leftmost matched text (matched from a position before which the pattern matches
  nowhere), its brackets stripped.
\<close>

definition matched_text :: "rx \<Rightarrow> string \<Rightarrow> nat \<Rightarrow> string option" where
  "matched_text p s b = map_option (span s b) (match_end False p s b)"

fun drop_brackets :: "string \<Rightarrow> string" where
  "drop_brackets [] = []"
| "drop_brackets (c # cs) =
     (if c = CHR ''['' \<or> c = CHR '']'' then drop_brackets cs else c # cs)"

definition strip_brackets :: "string \<Rightarrow> string" where
  "strip_brackets s = rev (drop_brackets (rev (drop_brackets s)))"

definition parses_in_order :: "string \<Rightarrow> datetime option \<Rightarrow> bool" where
  "parses_in_order stamp r =
     (case strptime stamp fmt_ymd_space of
        Some t \<Rightarrow> r = Some t
      | None \<Rightarrow>
          (case strptime stamp fmt_ymd_T of
             Some t \<Rightarrow> r = Some t
           | None \<Rightarrow> r = strptime stamp fmt_dmy_space))"

definition shape_gives :: "rx \<Rightarrow> string \<Rightarrow> datetime option \<Rightarrow> bool" where
  "shape_gives p line r =
     ((\<forall>b \<in> set [0..<Suc (length line)]. matched_text p line b = None) \<and> r = None \<or>
      (\<exists>b \<in> set [0..<Suc (length line)].
         (\<forall>b' \<in> set [0..<b]. matched_text p line b' = None) \<and>
         (case matched_text p line b of
            None \<Rightarrow> False
          | Some found \<Rightarrow> parses_in_order (strip_brackets found) r)))"

text \<open>
  The message as claim C4 words it: removal of the first occurrence only
  (\<open>re.sub\<close> with \<open>count=1\<close>) of each timestamp shape and of each pattern of the level,
  then runs of whitespace collapsed to single spaces and the ends trimmed.
\<close>

definition rx_sub_first :: "bool \<Rightarrow> rx \<Rightarrow> string \<Rightarrow> string" where
  "rx_sub_first ic r s =
     (case rx_search ic r s 0 of
        None \<Rightarrow> s
      | Some m \<Rightarrow> take (fst m) s @ drop (fst (snd m)) s)"

fun squeeze :: "string \<Rightarrow> string" where
  "squeeze [] = []"
| "squeeze (c # cs) =
     (if is_space c
      then (if cs \<noteq> [] \<and> is_space (hd cs) then squeeze cs else CHR '' '' # squeeze cs)
      else c # squeeze cs)"

definition collapse_ws :: "string \<Rightarrow> string" where
  "collapse_ws s = py_strip (squeeze s)"

definition message_first_occurrence :: "string \<Rightarrow> string" where
  "message_first_occurrence line =
     (let m1 = (if extract_timestamp line \<noteq> None
                then foldl (\<lambda>m pattern. rx_sub_first False pattern m) line TIMESTAMP_PATTERNS
                else line);
          m2 = (case detect_log_level line of
                  Some lv \<Rightarrow> foldl (\<lambda>m pattern. rx_sub_first True pattern m) m1
                               (compiled_level_patterns lv)
                | None \<Rightarrow> m1);
          m3 = collapse_ws m2
      in if m3 = [] then line else m3)"

text \<open>
  Claim C4, amended, takes "every occurrence removed" as follows. The text is read from
  left to right. An occurrence starts at a position when the pattern matches from there
  and the match is not empty. \<open>kept_positions\<close> lists the positions that are kept:
  where an occurrence starts, reading resumes at its end and the positions of the
  occurrence are dropped; elsewhere the position is kept and reading moves on by one.
  \<open>remove_all\<close> is the text at the kept positions.
\<close>

definition occurs_at :: "bool \<Rightarrow> rx \<Rightarrow> string \<Rightarrow> nat \<Rightarrow> bool" where
  "occurs_at ic p s b = (case match_end ic p s b of None \<Rightarrow> False | Some e \<Rightarrow> b < e)"

function kept_positions :: "bool \<Rightarrow> rx \<Rightarrow> string \<Rightarrow> nat \<Rightarrow> nat list" where
  "kept_positions ic p s pos =
     (if length s \<le> pos then []
      else case match_end ic p s pos of
             None \<Rightarrow> pos # kept_positions ic p s (Suc pos)
           | Some e \<Rightarrow>
               if pos < e then kept_positions ic p s e
               else pos # kept_positions ic p s (Suc pos))"
  by pat_completeness auto
termination
  by (relation "measure (\<lambda>(ic, p, s, pos). length s - pos)") auto

declare kept_positions.simps [simp del]

definition remove_all :: "bool \<Rightarrow> rx \<Rightarrow> string \<Rightarrow> string" where
  "remove_all ic p s = map (\<lambda>i. s ! i) (kept_positions ic p s 0)"

text \<open>
  The message with every occurrence removed, and the text trimmed after each removal.
\<close>

definition message_every_occurrence :: "string \<Rightarrow> string" where
  "message_every_occurrence line =
     (let m1 = (if extract_timestamp line \<noteq> None
                then foldl (\<lambda>m pattern. py_strip (remove_all False pattern m)) line
                       TIMESTAMP_PATTERNS
                else line);
          m2 = (case detect_log_level line of
                  Some lv \<Rightarrow> foldl (\<lambda>m pattern. py_strip (remove_all True pattern m)) m1
                               (compiled_level_patterns lv)
                | None \<Rightarrow> m1);
          m3 = collapse_ws m2
      in if m3 = [] then line else m3)"

text \<open>The least number of characters a match of a pattern consumes.\<close>

fun min_len :: "rx \<Rightarrow> nat" where
  "min_len REps = 0"
| "min_len (RSym cs) = 1"
| "min_len RBound = 0"
| "min_len (RCat a b) = min_len a + min_len b"
| "min_len (RAlt a b) = min (min_len a) (min_len b)"
| "min_len (ROpt a) = 0"
| "min_len (RRep cs lo hi) = lo"
| "min_len (RGroup i a) = min_len a"

section \<open>The claims about the grouper: discarded seeds and totals\<close>

text \<open>The positions at which a seed is discarded: the entry is visited as a seed (it is
  not processed and its message is not empty) and its scan adds no member.\<close>

fun discarded_seeds ::
    "(string \<Rightarrow> string \<Rightarrow> bool) \<Rightarrow> (nat \<times> log_entry) list \<Rightarrow> nat set \<Rightarrow> nat list" where
  "discarded_seeds similar [] processed = []"
| "discarded_seeds similar (ie # later) processed =
     (if fst ie \<in> processed then discarded_seeds similar later processed
      else
        let message1 = py_lower (message (snd ie)) in
        if message1 = [] then discarded_seeds similar later processed
        else
          case scan_candidates similar message1 later processed of
            (found, processed') \<Rightarrow>
              if 1 < 1 + length found
              then discarded_seeds similar later (insert (fst ie) processed')
              else fst ie # discarded_seeds similar later processed')"

text \<open>The total number of entries assigned to groups.\<close>

definition total_grouped :: "similarity_group list \<Rightarrow> nat" where
  "total_grouped groups = sum_list (map g_count groups)"

text \<open>The positions of the members of a group.\<close>

definition member_positions :: "similarity_group \<Rightarrow> nat set" where
  "member_positions g = fst ` set (g_members g)"

text \<open>The group that the outer loop builds from a seed and the members found.\<close>

definition new_group ::
    "nat \<times> log_entry \<Rightarrow> (nat \<times> log_entry) list \<Rightarrow> similarity_group list \<Rightarrow> similarity_group" where
  "new_group ie found groups =
     \<lparr>g_id = length groups + 1, representative = take 100 (message (snd ie)),
      g_count = 1 + length found, g_log_level = log_level (snd ie),
      g_members = ie # found, similarity_score = 1\<rparr>"

section \<open>Properties of the parser\<close>

lemma upt_shift_Cons: "[k..<k + Suc n] = k # [Suc k..<Suc k + n]"
proof -
  have "[k..<Suc (k + n)] = k # [Suc k..<Suc (k + n)]" by (rule upt_conv_Cons) simp
  then show ?thesis by simp
qed

lemma parse_line_None: "py_strip l = [] \<Longrightarrow> parse_line l k = None"
  by (simp add: parse_line_def)

lemma parse_line_Some:
  assumes "py_strip l \<noteq> []"
  shows "\<exists>e. parse_line l k = Some e \<and> line_number e = k \<and> raw_line e = py_strip l \<and>
             message e \<noteq> []"
  using assms by (simp add: parse_line_def Let_def)

lemma parse_lines_zip:
  "map (\<lambda>e. (line_number e, raw_line e)) (parse_lines k ls) =
     map (\<lambda>p. (fst p, py_strip (snd p)))
       (filter (\<lambda>p. py_strip (snd p) \<noteq> []) (zip [k..<k + length ls] ls))"
proof (induction ls arbitrary: k)
  case Nil
  then show ?case by simp
next
  case (Cons l ls)
  have u: "[k..<k + length (l # ls)] = k # [Suc k..<Suc k + length ls]"
    using upt_shift_Cons[of k "length ls"] by simp
  show ?case
  proof (cases "py_strip l = []")
    case True
    with Cons.IH[of "Suc k"] show ?thesis
      unfolding u by (simp add: parse_line_None)
  next
    case False
    from parse_line_Some[OF False, of k] obtain e where
      e: "parse_line l k = Some e" "line_number e = k" "raw_line e = py_strip l"
      by blast
    with False Cons.IH[of "Suc k"] show ?thesis
      unfolding u by simp
  qed
qed

lemma parse_lines_message: "e \<in> set (parse_lines k ls) \<Longrightarrow> message e \<noteq> []"
proof (induction ls arbitrary: k)
  case Nil
  then show ?case by simp
next
  case (Cons l ls)
  show ?case
  proof (cases "py_strip l = []")
    case True
    with Cons show ?thesis by (simp add: parse_line_None)
  next
    case False
    from parse_line_Some[OF False, of k] obtain e' where
      e: "parse_line l k = Some e'" "message e' \<noteq> []"
      by blast
    with Cons show ?thesis by auto
  qed
qed



text \<open>
  Claim C5, as stated, fails: \<open>raw_line\<close> is not the untouched text of the line. For the
  one-line file \<open>"  ERROR boom  "\<close> the entry's \<open>raw_line\<close> is \<open>"ERROR boom"\<close>.
\<close>

theorem raw_line_untouched_counterexample:
  "map raw_line (parse_file ''  ERROR boom  '') = [''ERROR boom''] \<and>
   map raw_line (parse_file ''  ERROR boom  '') \<noteq> [''  ERROR boom  '']"
proof -
  have "map raw_line (parse_file ''  ERROR boom  '') = [''ERROR boom'']"
    by code_simp
  then show ?thesis by simp
qed

text \<open>
  Claim C5, amended. \<open>parse_line\<close> strips the line first and stores the stripped text:
  the entries of a parse carry, with their line numbers, the stripped texts of the lines
  that are not blank, so \<open>raw_line\<close> is the source line without its leading and trailing
  whitespace.
\<close>

theorem raw_line_is_stripped_line:
  "map (\<lambda>e. (line_number e, raw_line e)) (parse_file file_content) =
     map (\<lambda>p. (fst p, py_strip (snd p)))
       (filter (\<lambda>p. py_strip (snd p) \<noteq> [])
         (zip [1..<1 + length (py_split_on CHR 0x0A file_content)]
              (py_split_on CHR 0x0A file_content)))"
  unfolding parse_file_def by (rule parse_lines_zip)

text \<open>
  Claim C10. Every entry of a parse has a non-empty message: an entry comes from a line
  that is not empty after stripping, and the message falls back to that stripped line
  when removing the tokens leaves nothing.
\<close>

theorem parse_file_message_nonempty:
  "\<forall>e \<in> set (parse_file file_content). message e \<noteq> []"
  unfolding parse_file_def using parse_lines_message by blast

text \<open>The line \<open>ERROR\<close>: removing the level token leaves nothing, and the message is the
  line itself.\<close>

theorem parse_file_message_nonempty_witness:
  "parse_file ''ERROR'' =
     [\<lparr>line_number = 1, log_level = Some ''ERROR'', timestamp = None,
       message = ''ERROR'', raw_line = ''ERROR''\<rparr>] \<and>
   message \<lparr>line_number = 1, log_level = Some ''ERROR'', timestamp = None,
       message = ''ERROR'', raw_line = ''ERROR''\<rparr> \<noteq> []"
proof -
  have p: "parse_file ''ERROR'' =
     [\<lparr>line_number = 1, log_level = Some ''ERROR'', timestamp = None,
       message = ''ERROR'', raw_line = ''ERROR''\<rparr>]"
    by code_simp
  then have "\<lparr>line_number = 1, log_level = Some ''ERROR'', timestamp = None,
       message = ''ERROR'', raw_line = ''ERROR''\<rparr> \<in> set (parse_file ''ERROR'')"
    by simp
  with parse_file_message_nonempty[of "''ERROR''"] p show ?thesis by blast
qed

lemma first_some_None_iff: "first_some f xs = None \<longleftrightarrow> (\<forall>x \<in> set xs. f x = None)"
  by (induction xs) (auto split: option.splits)

lemma first_some_Some_iff:
  "first_some f xs = Some y \<longleftrightarrow>
     (\<exists>k < length xs. f (xs ! k) = Some y \<and> (\<forall>j < k. f (xs ! j) = None))"
proof (induction xs)
  case Nil
  then show ?case by simp
next
  case (Cons x xs)
  show ?case
  proof (cases "f x")
    case None
    have "(\<exists>k < length (x # xs). f ((x # xs) ! k) = Some y \<and> (\<forall>j < k. f ((x # xs) ! j) = None))
          \<longleftrightarrow> (\<exists>k < length xs. f (xs ! k) = Some y \<and> (\<forall>j < k. f (xs ! j) = None))"
      (is "?L \<longleftrightarrow> ?R")
    proof
      assume ?L
      then obtain k where k: "k < length (x # xs)" "f ((x # xs) ! k) = Some y"
        "\<forall>j < k. f ((x # xs) ! j) = None" by blast
      with None obtain k' where k': "k = Suc k'" by (cases k) auto
      have "\<forall>j < k'. f (xs ! j) = None"
      proof (intro allI impI)
        fix j assume "j < k'"
        then have "Suc j < k" using k' by simp
        with k(3) have "f ((x # xs) ! Suc j) = None" by blast
        then show "f (xs ! j) = None" by simp
      qed
      with k k' show ?R by (intro exI[of _ k']) simp
    next
      assume ?R
      then obtain k where k: "k < length xs" "f (xs ! k) = Some y"
        "\<forall>j < k. f (xs ! j) = None" by blast
      have "\<forall>j < Suc k. f ((x # xs) ! j) = None"
      proof (intro allI impI)
        fix j assume j: "j < Suc k"
        show "f ((x # xs) ! j) = None"
        proof (cases j)
          case 0
          with None show ?thesis by simp
        next
          case (Suc j')
          with j k(3) show ?thesis by simp
        qed
      qed
      with k show ?L by (intro exI[of _ "Suc k"]) simp
    qed
    with None Cons.IH show ?thesis by simp
  next
    case (Some z)
    have "(\<exists>k < length (x # xs). f ((x # xs) ! k) = Some y \<and> (\<forall>j < k. f ((x # xs) ! j) = None))
          \<longleftrightarrow> z = y" (is "?L \<longleftrightarrow> _")
    proof
      assume ?L
      then obtain k where k: "k < length (x # xs)" "f ((x # xs) ! k) = Some y"
        "\<forall>j < k. f ((x # xs) ! j) = None" by blast
      have "k = 0"
      proof (rule ccontr)
        assume "k \<noteq> 0"
        then have "0 < k" by simp
        with k(3) have "f ((x # xs) ! 0) = None" by blast
        with Some show False by simp
      qed
      with k(2) Some show "z = y" by simp
    next
      assume "z = y"
      with Some show ?L by (intro exI[of _ 0]) simp
    qed
    with Some show ?thesis by simp
  qed
qed

lemma drop_brackets_dropWhile: "drop_brackets s = dropWhile (\<lambda>c. c \<in> set ''[]'') s"
  by (induction s) auto

lemma strip_brackets_eq: "py_strip_chars ''[]'' s = strip_brackets s"
  by (simp only: py_strip_chars_def strip_brackets_def drop_brackets_dropWhile)

lemma matched_text_None_iff: "matched_text p s b = None \<longleftrightarrow> rx_match_at False p s b = None"
  by (cases "rx_ends False s p (b, [])")
     (simp_all add: matched_text_def match_end_def rx_match_at_def)

lemma matched_text_Some:
  "rx_match_at False p s b = Some m \<Longrightarrow> matched_text p s b = Some (span s (fst m) (fst (snd m)))"
  by (cases "rx_ends False s p (b, [])")
     (auto simp add: matched_text_def match_end_def rx_match_at_def)

lemma parses_in_order_iff:
  "parses_in_order stamp r \<longleftrightarrow> first_some (strptime stamp) TIMESTAMP_FORMATS = r"
  by (auto simp add: parses_in_order_def TIMESTAMP_FORMATS_def split: option.splits)

lemma rx_search_None_iff:
  "rx_search ic r s 0 = None \<longleftrightarrow>
     (\<forall>b \<in> set [0..<Suc (length s)]. rx_match_at ic r s b = None)"
  by (simp only: rx_search_def first_some_None_iff)

lemma rx_search_Some_iff:
  "rx_search ic r s 0 = Some m \<longleftrightarrow>
     (\<exists>b \<in> set [0..<Suc (length s)]. rx_match_at ic r s b = Some m \<and>
        (\<forall>b' \<in> set [0..<b]. rx_match_at ic r s b' = None))"
proof -
  have "rx_search ic r s 0 = Some m \<longleftrightarrow>
      (\<exists>k < length [0..<Suc (length s)]. rx_match_at ic r s ([0..<Suc (length s)] ! k) = Some m \<and>
         (\<forall>j < k. rx_match_at ic r s ([0..<Suc (length s)] ! j) = None))"
    by (simp only: rx_search_def first_some_Some_iff)
  also have "\<dots> \<longleftrightarrow> (\<exists>k < Suc (length s). rx_match_at ic r s k = Some m \<and>
         (\<forall>j < k. rx_match_at ic r s j = None))"
    by (auto simp del: upt_Suc)
  also have "\<dots> \<longleftrightarrow> (\<exists>b \<in> set [0..<Suc (length s)]. rx_match_at ic r s b = Some m \<and>
        (\<forall>b' \<in> set [0..<b]. rx_match_at ic r s b' = None))"
    by (auto simp del: upt_Suc)
  finally show ?thesis .
qed

lemma shape_gives_iff: "shape_gives p line r \<longleftrightarrow> try_timestamp_pattern line p = r"
proof (cases "rx_search False p line 0")
  case None
  then have n: "\<forall>b \<in> set [0..<Suc (length line)]. matched_text p line b = None"
    by (simp only: rx_search_None_iff matched_text_None_iff)
  then have "\<not> (\<exists>b \<in> set [0..<Suc (length line)].
         (\<forall>b' \<in> set [0..<b]. matched_text p line b' = None) \<and>
         (case matched_text p line b of
            None \<Rightarrow> False
          | Some found \<Rightarrow> parses_in_order (strip_brackets found) r))"
    by auto
  with n have "shape_gives p line r \<longleftrightarrow> r = None" unfolding shape_gives_def by blast
  moreover from None have "try_timestamp_pattern line p = None"
    by (simp add: try_timestamp_pattern_def)
  ultimately show ?thesis by auto
next
  case (Some m)
  then obtain b where b: "b \<in> set [0..<Suc (length line)]"
      "rx_match_at False p line b = Some m"
      "\<forall>b' \<in> set [0..<b]. rx_match_at False p line b' = None"
    unfolding rx_search_Some_iff by blast
  let ?found = "span line (fst m) (fst (snd m))"
  from b(2) have mt: "matched_text p line b = Some ?found" by (rule matched_text_Some)
  from b(3) have before: "\<forall>b' \<in> set [0..<b]. matched_text p line b' = None"
    by (simp only: matched_text_None_iff)
  have uniq: "c = b"
    if c: "c \<in> set [0..<Suc (length line)]"
      "\<forall>b' \<in> set [0..<c]. matched_text p line b' = None"
      "matched_text p line c \<noteq> None" for c
  proof (rule ccontr)
    assume "c \<noteq> b"
    then consider "c < b" | "b < c" by linarith
    then show False
    proof cases
      case 1
      with before have "matched_text p line c = None" by simp
      with c(3) show False by simp
    next
      case 2
      with c(2) have "matched_text p line b = None" by simp
      with mt show False by simp
    qed
  qed
  have "shape_gives p line r \<longleftrightarrow> parses_in_order (strip_brackets ?found) r"
  proof
    assume "shape_gives p line r"
    then consider
        (none) "\<forall>b \<in> set [0..<Suc (length line)]. matched_text p line b = None"
      | (some) c where "c \<in> set [0..<Suc (length line)]"
          "\<forall>b' \<in> set [0..<c]. matched_text p line b' = None"
          "case matched_text p line c of None \<Rightarrow> False
           | Some found \<Rightarrow> parses_in_order (strip_brackets found) r"
      unfolding shape_gives_def by blast
    then show "parses_in_order (strip_brackets ?found) r"
    proof cases
      case none
      with b(1) mt show ?thesis by auto
    next
      case some
      from some(3) have "matched_text p line c \<noteq> None" by (auto split: option.splits)
      with uniq some(1,2) have "c = b" by blast
      with some(3) mt show ?thesis by simp
    qed
  next
    assume "parses_in_order (strip_brackets ?found) r"
    with b(1) before mt show "shape_gives p line r"
      unfolding shape_gives_def by (intro disjI2 bexI[of _ b]) simp_all
  qed
  moreover from Some have "try_timestamp_pattern line p =
      first_some (strptime (strip_brackets ?found)) TIMESTAMP_FORMATS"
    by (simp add: try_timestamp_pattern_def strip_brackets_eq)
  ultimately show ?thesis by (simp only: parses_in_order_iff)
qed

text \<open>
  Claim C2, as stated, fails. In the line below the first shape matches
  \<open>2024-13-45 10:30:45\<close>, which is no date; the claim's reading reports no timestamp,
  while \<open>extract_timestamp\<close> goes on to the second shape and returns the timestamp
  \<open>2024-01-15T10:30:45\<close>.
\<close>

theorem extract_timestamp_no_retry_counterexample:
  "extract_timestamp_spec ''2024-13-45 10:30:45 2024-01-15T10:30:45'' = None \<and>
   extract_timestamp ''2024-13-45 10:30:45 2024-01-15T10:30:45'' =
     Some \<lparr>dt_year = 2024, dt_month = 1, dt_day = 15, dt_hour = 10, dt_minute = 30,
            dt_second = 45\<rparr>"
  by code_simp

text \<open>
  Claim C2, amended. The shapes are tested in order. The outcome for one shape is
  nothing when its pattern matches nowhere in the line; otherwise the leftmost matched
  text, its surrounding brackets stripped, is tried against the three formats in order
  and the first format that parses it decides. The timestamp is that of the first shape
  whose outcome is a timestamp: a shape that does not match, or whose matched text
  parses under no format, is passed over and the later shapes are tried. No timestamp is
  reported exactly when the outcome is nothing for every shape.
\<close>

theorem extract_timestamp_falls_through:
  "(extract_timestamp line = Some t \<longleftrightarrow>
     (\<exists>k < length TIMESTAMP_PATTERNS.
        shape_gives (TIMESTAMP_PATTERNS ! k) line (Some t) \<and>
        (\<forall>j < k. shape_gives (TIMESTAMP_PATTERNS ! j) line None))) \<and>
   (extract_timestamp line = None \<longleftrightarrow>
     (\<forall>pattern \<in> set TIMESTAMP_PATTERNS. shape_gives pattern line None))"
  unfolding extract_timestamp_def
  by (simp only: first_some_Some_iff first_some_None_iff shape_gives_iff)

text \<open>
  Three lines. In the first the first shape matches \<open>2024-13-45 10:30:45\<close>, which is no
  date, the second and third shapes match nowhere, and the fourth shape's leftmost match
  is the bracketed text, which parses once its brackets are stripped. In the second the
  third shape matches a text that only the third format parses. In the third the only
  match parses under no format and no timestamp is reported.
\<close>

theorem extract_timestamp_falls_through_witness:
  "matched_text (TIMESTAMP_PATTERNS ! 0) ''2024-13-45 10:30:45 [2024-01-15 10:30:45]'' 0
     = Some ''2024-13-45 10:30:45'' \<and>
   shape_gives (TIMESTAMP_PATTERNS ! 0) ''2024-13-45 10:30:45 [2024-01-15 10:30:45]'' None \<and>
   shape_gives (TIMESTAMP_PATTERNS ! 1) ''2024-13-45 10:30:45 [2024-01-15 10:30:45]'' None \<and>
   shape_gives (TIMESTAMP_PATTERNS ! 2) ''2024-13-45 10:30:45 [2024-01-15 10:30:45]'' None \<and>
   matched_text (TIMESTAMP_PATTERNS ! 3) ''2024-13-45 10:30:45 [2024-01-15 10:30:45]'' 20
     = Some ''[2024-01-15 10:30:45]'' \<and>
   strip_brackets ''[2024-01-15 10:30:45]'' = ''2024-01-15 10:30:45'' \<and>
   extract_timestamp ''2024-13-45 10:30:45 [2024-01-15 10:30:45]''
     = Some \<lparr>dt_year = 2024, dt_month = 1, dt_day = 15, dt_hour = 10, dt_minute = 30,
              dt_second = 45\<rparr> \<and>
   strptime ''15/01/2024 10:30:45'' fmt_ymd_space = None \<and>
   strptime ''15/01/2024 10:30:45'' fmt_ymd_T = None \<and>
   extract_timestamp ''up 15/01/2024 10:30:45''
     = Some \<lparr>dt_year = 2024, dt_month = 1, dt_day = 15, dt_hour = 10, dt_minute = 30,
              dt_second = 45\<rparr> \<and>
   extract_timestamp ''2024-13-45 10:30:45'' = None"
proof -
  let ?A = "''2024-13-45 10:30:45 [2024-01-15 10:30:45]''"
  let ?B = "''up 15/01/2024 10:30:45''"
  let ?C = "''2024-13-45 10:30:45''"
  let ?t = "\<lparr>dt_year = 2024, dt_month = 1, dt_day = 15, dt_hour = 10, dt_minute = 30,
              dt_second = 45\<rparr>"
  have len: "length TIMESTAMP_PATTERNS = 4" by (simp add: TIMESTAMP_PATTERNS_def)
  have below: "(\<forall>j < k. Q j) \<longleftrightarrow> list_all Q [0..<k]" for Q :: "nat \<Rightarrow> bool" and k
    by (auto simp add: list_all_iff)
  have a0: "shape_gives (TIMESTAMP_PATTERNS ! 0) ?A None" by code_simp
  have a1: "shape_gives (TIMESTAMP_PATTERNS ! 1) ?A None" by code_simp
  have a2: "shape_gives (TIMESTAMP_PATTERNS ! 2) ?A None" by code_simp
  have a3: "shape_gives (TIMESTAMP_PATTERNS ! 3) ?A (Some ?t)" by code_simp
  have m0: "matched_text (TIMESTAMP_PATTERNS ! 0) ?A 0 = Some ''2024-13-45 10:30:45''"
    by code_simp
  have m3: "matched_text (TIMESTAMP_PATTERNS ! 3) ?A 20 = Some ''[2024-01-15 10:30:45]''"
    by code_simp
  have sb: "strip_brackets ''[2024-01-15 10:30:45]'' = ''2024-01-15 10:30:45''" by code_simp
  have "list_all (\<lambda>j. shape_gives (TIMESTAMP_PATTERNS ! j) ?A None) [0..<3]" by code_simp
  then have "\<forall>j < 3. shape_gives (TIMESTAMP_PATTERNS ! j) ?A None" by (simp only: below)
  with a3 len have "\<exists>k < length TIMESTAMP_PATTERNS.
        shape_gives (TIMESTAMP_PATTERNS ! k) ?A (Some ?t) \<and>
        (\<forall>j < k. shape_gives (TIMESTAMP_PATTERNS ! j) ?A None)"
    by (intro exI[of _ 3]) simp
  with extract_timestamp_falls_through[of ?A ?t] have A: "extract_timestamp ?A = Some ?t"
    by blast
  have f1: "strptime ''15/01/2024 10:30:45'' fmt_ymd_space = None" by code_simp
  have f2: "strptime ''15/01/2024 10:30:45'' fmt_ymd_T = None" by code_simp
  have b2: "shape_gives (TIMESTAMP_PATTERNS ! 2) ?B (Some ?t)" by code_simp
  have "list_all (\<lambda>j. shape_gives (TIMESTAMP_PATTERNS ! j) ?B None) [0..<2]" by code_simp
  then have "\<forall>j < 2. shape_gives (TIMESTAMP_PATTERNS ! j) ?B None" by (simp only: below)
  with b2 len have "\<exists>k < length TIMESTAMP_PATTERNS.
        shape_gives (TIMESTAMP_PATTERNS ! k) ?B (Some ?t) \<and>
        (\<forall>j < k. shape_gives (TIMESTAMP_PATTERNS ! j) ?B None)"
    by (intro exI[of _ 2]) simp
  with extract_timestamp_falls_through[of ?B ?t] have B: "extract_timestamp ?B = Some ?t"
    by blast
  have "list_all (\<lambda>pattern. shape_gives pattern ?C None) TIMESTAMP_PATTERNS" by code_simp
  then have "\<forall>pattern \<in> set TIMESTAMP_PATTERNS. shape_gives pattern ?C None"
    by (simp only: list_all_iff)
  with extract_timestamp_falls_through[of ?C] have C: "extract_timestamp ?C = None"
    by blast
  from m0 a0 a1 a2 m3 sb A f1 f2 B C show ?thesis by blast
qed

lemma py_rstrip_Nil_iff: "py_rstrip x = [] \<longleftrightarrow> (\<forall>c \<in> set x. is_space c)"
  by (simp add: py_rstrip_def dropWhile_eq_Nil_conv)

lemma py_rstrip_Cons:
  "py_rstrip (c # x) = (if is_space c \<and> py_rstrip x = [] then [] else c # py_rstrip x)"
proof (cases "\<forall>d \<in> set x. is_space d")
  case True
  then have "dropWhile is_space (rev x @ [c]) = dropWhile is_space [c]"
    by (simp add: dropWhile_append)
  moreover from True have "py_rstrip x = []" by (simp add: py_rstrip_Nil_iff)
  ultimately show ?thesis by (simp add: py_rstrip_def)
next
  case False
  then have "dropWhile is_space (rev x @ [c]) = dropWhile is_space (rev x) @ [c]"
    by (auto simp add: dropWhile_append)
  moreover from False have "py_rstrip x \<noteq> []" by (simp add: py_rstrip_Nil_iff)
  ultimately show ?thesis by (simp add: py_rstrip_def)
qed

lemma py_strip_Cons:
  "py_strip (c # x) = (if is_space c then py_strip x else c # py_rstrip x)"
  by (simp add: py_strip_def py_lstrip_def py_rstrip_Cons)

lemma py_strip_Nil [simp]: "py_strip [] = []"
  by (simp add: py_strip_def py_lstrip_def py_rstrip_def)

lemma py_rstrip_Nil [simp]: "py_rstrip [] = []"
  by (simp add: py_rstrip_def)

lemma py_split_words_nonempty: "w \<in> set (py_split s) \<Longrightarrow> w \<noteq> []"
  by (induction s arbitrary: w) (auto split: if_splits list.splits)

lemma py_split_nonspace: "\<not> is_space c \<Longrightarrow> py_split (c # cs) \<noteq> []"
  by (auto split: list.splits)

lemma py_join_Nil_iff:
  "\<forall>w \<in> set ws. w \<noteq> [] \<Longrightarrow> py_join sep ws = [] \<longleftrightarrow> ws = []"
proof (cases ws)
  case Nil
  then show ?thesis by simp
next
  case (Cons w ws')
  assume "\<forall>w \<in> set ws. w \<noteq> []"
  with Cons have "w \<noteq> []" by simp
  then have "py_join sep (w # ws') \<noteq> []" by (cases ws') auto
  with Cons show ?thesis by simp
qed

lemma py_join_Cons_first: "py_join sep ((c # w) # ws) = c # py_join sep (w # ws)"
  by (cases ws) auto

lemma squeeze_space_head:
  "is_space d \<Longrightarrow> \<exists>r. squeeze (d # ds) = CHR '' '' # r \<and> (r = [] \<or> \<not> is_space (hd r))"
proof (induction ds arbitrary: d)
  case Nil
  then show ?case by simp
next
  case (Cons e es)
  show ?case
  proof (cases "is_space e")
    case True
    from Cons.IH[OF True] Cons.prems True show ?thesis by simp
  next
    case False
    with Cons.prems show ?thesis by simp
  qed
qed

lemma py_strip_head_nonspace: "r = [] \<or> \<not> is_space (hd r) \<Longrightarrow> py_strip r = py_rstrip r"
  by (cases r) (auto simp: py_strip_Cons py_rstrip_Cons)

lemma join_split_squeeze: "py_join '' '' (py_split s) = py_strip (squeeze s)"
proof (induction s)
  case Nil
  then show ?case by simp
next
  case (Cons c cs)
  show ?case
  proof (cases "is_space c")
    case True
    have "is_space CHR '' ''" by (simp add: is_space_def)
    with True Cons.IH show ?thesis by (simp add: py_strip_Cons)
  next
    case False
    note c = False
    show ?thesis
    proof (cases cs)
      case Nil
      with c show ?thesis by (simp add: py_strip_Cons)
    next
      case (Cons d ds)
      show ?thesis
      proof (cases "is_space d")
        case False
        with py_split_nonspace[of d ds] obtain w ws where w: "py_split (d # ds) = w # ws"
          by (cases "py_split (d # ds)") auto
        have "py_join '' '' (py_split (c # cs)) = c # py_join '' '' (py_split cs)"
          using c False Cons w by (simp add: py_join_Cons_first del: py_split.simps(2))
              (simp add: py_join_Cons_first w)
        also have "\<dots> = c # py_strip (squeeze cs)" using Cons.IH by simp
        also have "\<dots> = c # py_rstrip (squeeze cs)"
          using False Cons by (simp add: py_strip_Cons py_rstrip_Cons)
        finally show ?thesis using c False Cons by (simp add: py_strip_Cons py_rstrip_Cons)
      next
        case True
        from squeeze_space_head[OF True, of ds] obtain r where
          r: "squeeze cs = CHR '' '' # r" "r = [] \<or> \<not> is_space (hd r)"
          using Cons by auto
        have sp: "is_space CHR '' ''" by (simp add: is_space_def)
        have st: "py_strip (squeeze cs) = py_rstrip r"
          using r sp py_strip_head_nonspace[OF r(2)] by (simp add: py_strip_Cons)
        have ne: "\<forall>w \<in> set (py_split cs). w \<noteq> []" using py_split_words_nonempty by blast
        have e: "py_split cs = [] \<longleftrightarrow> py_rstrip r = []"
          using py_join_Nil_iff[OF ne, of "'' ''"] Cons.IH st by simp
        have sc: "py_split (c # cs) = [c] # py_split cs" using c True Cons by simp
        have rhs: "py_strip (squeeze (c # cs)) =
                   c # (if py_rstrip r = [] then [] else CHR '' '' # py_rstrip r)"
          using c r sp by (simp add: py_strip_Cons py_rstrip_Cons)
        show ?thesis
        proof (cases "py_split cs")
          case Nil
          with e rhs sc show ?thesis by simp
        next
          case (Cons w ws)
          with e have "py_rstrip r \<noteq> []" by simp
          moreover have "py_join '' '' ([c] # w # ws) = c # CHR '' '' # py_join '' '' (w # ws)"
            by simp
          ultimately show ?thesis using rhs sc Cons Cons.IH st
            by (metis)
        qed
      qed
    qed
  qed
qed

lemma rx_ends_lower:
  "x \<in> set (rx_ends ic s r st) \<Longrightarrow> fst st + min_len r \<le> fst x"
proof (induction r arbitrary: st x)
  case (RCat a b)
  then obtain mid where mid: "mid \<in> set (rx_ends ic s a st)" "x \<in> set (rx_ends ic s b mid)"
    by auto
  from RCat.IH(1)[OF mid(1)] RCat.IH(2)[OF mid(2)] show ?case by simp
next
  case (RAlt a b)
  then consider "x \<in> set (rx_ends ic s a st)" | "x \<in> set (rx_ends ic s b st)" by auto
  then show ?case
  proof cases
    case 1
    from RAlt.IH(1)[OF 1] show ?thesis by simp
  next
    case 2
    from RAlt.IH(2)[OF 2] show ?thesis by simp
  qed
next
  case (ROpt a)
  then consider "x \<in> set (rx_ends ic s a st)" | "x = st" by auto
  then show ?case
  proof cases
    case 1
    from ROpt.IH[OF 1] show ?thesis by simp
  next
    case 2
    then show ?thesis by simp
  qed
next
  case (RRep cs lo hi)
  then show ?case by (auto simp add: Let_def split: if_splits)
next
  case (RGroup i a)
  then obtain y where y: "y \<in> set (rx_ends ic s a st)" "fst x = fst y" by auto
  from RGroup.IH[OF y(1)] y(2) show ?case by simp
qed (auto split: if_splits)

lemma rx_ends_upper:
  "x \<in> set (rx_ends ic s r st) \<Longrightarrow> fst st \<le> length s \<Longrightarrow> fst x \<le> length s"
proof (induction r arbitrary: st x)
  case (RCat a b)
  then obtain mid where mid: "mid \<in> set (rx_ends ic s a st)" "x \<in> set (rx_ends ic s b mid)"
    by auto
  from RCat.IH(1)[OF mid(1) RCat.prems(2)] have "fst mid \<le> length s" .
  from RCat.IH(2)[OF mid(2) this] show ?case .
next
  case (RAlt a b)
  then consider "x \<in> set (rx_ends ic s a st)" | "x \<in> set (rx_ends ic s b st)" by auto
  then show ?case using RAlt.IH RAlt.prems(2) by cases blast+
next
  case (ROpt a)
  then consider "x \<in> set (rx_ends ic s a st)" | "x = st" by auto
  then show ?case using ROpt.IH ROpt.prems(2) by cases auto
next
  case (RRep cs lo hi)
  let ?run = "length (takeWhile (cset_ok ic cs) (drop (fst st) s))"
  have run: "?run \<le> length s - fst st"
    using length_takeWhile_le[of "cset_ok ic cs" "drop (fst st) s"] by simp
  from RRep.prems(1) obtain k where k: "fst x = fst st + k" "k \<le> ?run"
    by (auto simp add: Let_def split: if_splits option.splits)
  with run RRep.prems(2) show ?case by simp
next
  case (RGroup i a)
  then obtain y where y: "y \<in> set (rx_ends ic s a st)" "fst x = fst y" by auto
  from RGroup.IH[OF y(1) RGroup.prems(2)] y(2) show ?case by simp
qed (auto split: if_splits)

lemma match_end_bounds:
  assumes "match_end ic p s pos = Some e" "pos \<le> length s"
  shows "pos + min_len p \<le> e \<and> e \<le> length s"
proof -
  from assms(1) obtain m ms where m: "rx_ends ic s p (pos, []) = m # ms" "e = fst m"
    by (cases "rx_ends ic s p (pos, [])") (auto simp add: match_end_def)
  then have "m \<in> set (rx_ends ic s p (pos, []))" by simp
  from rx_ends_lower[OF this] rx_ends_upper[OF this] assms(2) m(2) show ?thesis by simp
qed

lemma rx_match_at_None: "match_end ic p s pos = None \<Longrightarrow> rx_match_at ic p s pos = None"
  by (cases "rx_ends ic s p (pos, [])") (simp_all add: match_end_def rx_match_at_def)

lemma rx_match_at_Some:
  "match_end ic p s pos = Some e \<Longrightarrow> \<exists>g. rx_match_at ic p s pos = Some (pos, e, g)"
  by (cases "rx_ends ic s p (pos, [])") (auto simp add: match_end_def rx_match_at_def)

lemma rx_search_step:
  assumes "pos \<le> length s"
  shows "rx_search ic p s pos =
           (case rx_match_at ic p s pos of
              Some m \<Rightarrow> Some m
            | None \<Rightarrow> rx_search ic p s (Suc pos))"
proof -
  from assms have "[pos..<Suc (length s)] = pos # [Suc pos..<Suc (length s)]"
    by (simp add: upt_conv_Cons del: upt_Suc)
  then show ?thesis by (simp only: rx_search_def first_some.simps)
qed

lemma cut_spans_step:
  assumes "pos < length s" "ms = [] \<or> pos < fst (hd ms)"
  shows "cut_spans s pos ms = s ! pos # cut_spans s (Suc pos) ms"
proof (cases ms)
  case Nil
  with assms(1) show ?thesis by (simp add: Cons_nth_drop_Suc)
next
  case (Cons m rest)
  with assms(2) have b: "pos < fst m" by simp
  then obtain d where d: "fst m - pos = Suc d" "fst m - Suc pos = d"
    by (cases "fst m - pos") auto
  from assms(1) have "drop pos s = s ! pos # drop (Suc pos) s" by (simp add: Cons_nth_drop_Suc)
  with d have "span s pos (fst m) = s ! pos # span s (Suc pos) (fst m)"
    by (simp add: span_def)
  with Cons show ?thesis by simp
qed

lemma sub_removes_every:
  assumes ne: "0 < min_len p"
  shows "pos \<le> length s \<Longrightarrow>
         cut_spans s pos (rx_finditer ic p s pos) = map (\<lambda>i. s ! i) (kept_positions ic p s pos)"
proof (induction "length s - pos" arbitrary: pos rule: less_induct)
  case less
  show ?case
  proof (cases "pos < length s")
    case False
    with less.prems have pos: "pos = length s" by simp
    have "match_end ic p s pos = None"
    proof (cases "match_end ic p s pos")
      case (Some e)
      from match_end_bounds[OF Some less.prems] ne pos show ?thesis by simp
    qed simp
    then have "rx_match_at ic p s pos = None" by (rule rx_match_at_None)
    then have "rx_search ic p s pos = None" using pos by (simp add: rx_search_def)
    then have "rx_finditer ic p s pos = []" by (subst rx_finditer.simps) simp
    moreover have "kept_positions ic p s pos = []"
      using pos by (subst kept_positions.simps) simp
    ultimately show ?thesis using pos by simp
  next
    case True
    note lt = True
    show ?thesis
    proof (cases "match_end ic p s pos")
      case None
      then have "rx_match_at ic p s pos = None" by (rule rx_match_at_None)
      with rx_search_step[OF less.prems, of ic p]
      have se: "rx_search ic p s pos = rx_search ic p s (Suc pos)" by simp
      have fi: "rx_finditer ic p s pos = rx_finditer ic p s (Suc pos)"
        by (subst rx_finditer.simps, subst (2) rx_finditer.simps) (simp only: se)
      have hd: "rx_finditer ic p s (Suc pos) = [] \<or> pos < fst (hd (rx_finditer ic p s (Suc pos)))"
      proof (cases "rx_search ic p s (Suc pos)")
        case None
        then have "rx_finditer ic p s (Suc pos) = []" by (subst rx_finditer.simps) simp
        then show ?thesis by simp
      next
        case (Some m)
        obtain b e g where m: "m = (b, e, g)" by (cases m) auto
        with Some rx_search_bounds have "Suc pos \<le> b" by blast
        moreover from Some have "hd (rx_finditer ic p s (Suc pos)) = m"
          by (subst rx_finditer.simps) simp
        ultimately show ?thesis using m by simp
      qed
      from lt have "length s - Suc pos < length s - pos" by simp
      moreover from lt have "Suc pos \<le> length s" by simp
      ultimately have ih: "cut_spans s (Suc pos) (rx_finditer ic p s (Suc pos)) =
          map (\<lambda>i. s ! i) (kept_positions ic p s (Suc pos))"
        by (rule less.hyps)
      have "kept_positions ic p s pos = pos # kept_positions ic p s (Suc pos)"
        using lt None by (subst kept_positions.simps) simp
      with ih cut_spans_step[OF lt hd] fi show ?thesis by simp
    next
      case (Some e)
      from match_end_bounds[OF Some less.prems] ne have e: "pos < e" "e \<le> length s" by simp_all
      from rx_match_at_Some[OF Some] obtain g where g: "rx_match_at ic p s pos = Some (pos, e, g)"
        by blast
      with rx_search_step[OF less.prems, of ic p]
      have "rx_search ic p s pos = Some (pos, e, g)" by simp
      then have fi: "rx_finditer ic p s pos = (pos, e, g) # rx_finditer ic p s e"
        using e(1) by (subst rx_finditer.simps) simp
      from e lt have "length s - e < length s - pos" by simp
      then have ih: "cut_spans s e (rx_finditer ic p s e) =
          map (\<lambda>i. s ! i) (kept_positions ic p s e)"
        using e(2) by (rule less.hyps)
      have "kept_positions ic p s pos = kept_positions ic p s e"
        using lt Some e(1) by (subst kept_positions.simps) simp
      with ih fi show ?thesis by (simp add: span_def)
    qed
  qed
qed

lemma kept_positions_free:
  "b \<in> set (kept_positions ic p s pos) \<Longrightarrow> pos \<le> b \<and> b < length s \<and> \<not> occurs_at ic p s b"
proof (induction ic p s pos rule: kept_positions.induct)
  case (1 ic p s pos)
  show ?case
  proof (cases "length s \<le> pos")
    case True
    with "1.prems" show ?thesis by (subst (asm) kept_positions.simps) simp
  next
    case False
    note lt = False
    show ?thesis
    proof (cases "match_end ic p s pos")
      case None
      with lt "1.prems" have "b = pos \<or> b \<in> set (kept_positions ic p s (Suc pos))"
        by (subst (asm) kept_positions.simps) simp
      then show ?thesis
      proof
        assume "b = pos"
        with lt None show ?thesis by (simp add: occurs_at_def)
      next
        assume "b \<in> set (kept_positions ic p s (Suc pos))"
        from "1.IH"(1)[OF lt None this] show ?thesis by simp
      qed
    next
      case (Some e)
      show ?thesis
      proof (cases "pos < e")
        case True
        with lt Some "1.prems" have "b \<in> set (kept_positions ic p s e)"
          by (subst (asm) kept_positions.simps) simp
        from "1.IH"(2)[OF lt Some True this] True show ?thesis by simp
      next
        case False
        with lt Some "1.prems" have "b = pos \<or> b \<in> set (kept_positions ic p s (Suc pos))"
          by (subst (asm) kept_positions.simps) simp
        then show ?thesis
        proof
          assume "b = pos"
          with lt Some False show ?thesis by (simp add: occurs_at_def)
        next
          assume "b \<in> set (kept_positions ic p s (Suc pos))"
          from "1.IH"(3)[OF lt Some False this] show ?thesis by simp
        qed
      qed
    qed
  qed
qed

lemma removed_positions_covered:
  "pos \<le> q \<Longrightarrow> q < length s \<Longrightarrow> q \<notin> set (kept_positions ic p s pos) \<Longrightarrow>
   \<exists>b e. pos \<le> b \<and> b \<le> q \<and> q < e \<and> match_end ic p s b = Some e \<and>
         (\<forall>i \<in> set [b..<e]. i \<notin> set (kept_positions ic p s pos))"
proof (induction ic p s pos rule: kept_positions.induct)
  case (1 ic p s pos)
  from "1.prems" have lt: "\<not> length s \<le> pos" by simp
  have keep: ?case
    if k: "kept_positions ic p s pos = pos # kept_positions ic p s (Suc pos)"
      and ih: "Suc pos \<le> q \<Longrightarrow> q < length s \<Longrightarrow> q \<notin> set (kept_positions ic p s (Suc pos)) \<Longrightarrow>
        \<exists>b e. Suc pos \<le> b \<and> b \<le> q \<and> q < e \<and> match_end ic p s b = Some e \<and>
          (\<forall>i \<in> set [b..<e]. i \<notin> set (kept_positions ic p s (Suc pos)))"
  proof -
    from "1.prems"(3) k have "q \<noteq> pos" "q \<notin> set (kept_positions ic p s (Suc pos))" by auto
    with "1.prems"(1) have "Suc pos \<le> q" by simp
    from ih[OF this "1.prems"(2) \<open>q \<notin> set (kept_positions ic p s (Suc pos))\<close>]
    obtain b e where be: "Suc pos \<le> b" "b \<le> q" "q < e" "match_end ic p s b = Some e"
        "\<forall>i \<in> set [b..<e]. i \<notin> set (kept_positions ic p s (Suc pos))"
      by blast
    from be(1,5) k have "\<forall>i \<in> set [b..<e]. i \<notin> set (kept_positions ic p s pos)" by auto
    with be show ?thesis by (intro exI[of _ b] exI[of _ e]) simp
  qed
  show ?case
  proof (cases "match_end ic p s pos")
    case None
    have "kept_positions ic p s pos = pos # kept_positions ic p s (Suc pos)"
      using lt None by (subst kept_positions.simps) simp
    then show ?thesis using "1.IH"(1)[OF lt None] by (rule keep)
  next
    case (Some e)
    show ?thesis
    proof (cases "pos < e")
      case False
      have "kept_positions ic p s pos = pos # kept_positions ic p s (Suc pos)"
        using lt Some False by (subst kept_positions.simps) simp
      then show ?thesis using "1.IH"(3)[OF lt Some False] by (rule keep)
    next
      case True
      have k: "kept_positions ic p s pos = kept_positions ic p s e"
        using lt Some True by (subst kept_positions.simps) simp
      show ?thesis
      proof (cases "q < e")
        case True
        have "\<forall>i \<in> set [pos..<e]. i \<notin> set (kept_positions ic p s e)"
          using kept_positions_free[of _ ic p s e] by fastforce
        with True Some "1.prems"(1) k show ?thesis
          by (intro exI[of _ pos] exI[of _ e]) simp
      next
        case False
        then have "e \<le> q" by simp
        from "1.IH"(2)[OF lt Some True this "1.prems"(2)] "1.prems"(3) k
        obtain b e' where be: "e \<le> b" "b \<le> q" "q < e'" "match_end ic p s b = Some e'"
            "\<forall>i \<in> set [b..<e']. i \<notin> set (kept_positions ic p s e)"
          by auto
        with True k show ?thesis by (intro exI[of _ b] exI[of _ e']) simp
      qed
    qed
  qed
qed

lemma rx_sub_empty_remove_all: "0 < min_len p \<Longrightarrow> rx_sub_empty ic p s = remove_all ic p s"
  by (simp add: rx_sub_empty_def remove_all_def sub_removes_every)

lemma foldl_remove_all:
  "\<forall>p \<in> set ps. 0 < min_len p \<Longrightarrow>
   foldl (\<lambda>m pattern. py_strip (rx_sub_empty ic pattern m)) x ps =
   foldl (\<lambda>m pattern. py_strip (remove_all ic pattern m)) x ps"
  by (induction ps arbitrary: x) (simp_all add: rx_sub_empty_remove_all)

lemma timestamp_patterns_consume: "\<forall>p \<in> set TIMESTAMP_PATTERNS. 0 < min_len p"
proof -
  have "list_all (\<lambda>p. 0 < min_len p) TIMESTAMP_PATTERNS" by code_simp
  then show ?thesis by (simp only: list_all_iff)
qed

lemma level_patterns_consume: "\<forall>p \<in> set (compiled_level_patterns lv). 0 < min_len p"
proof -
  have a: "list_all (\<lambda>lp. list_all (\<lambda>p. 0 < min_len p) (snd lp)) LOG_LEVEL_PATTERNS"
    by code_simp
  show ?thesis
  proof (cases "map_of LOG_LEVEL_PATTERNS lv")
    case None
    then show ?thesis by (simp add: compiled_level_patterns_def)
  next
    case (Some ps)
    then have "(lv, ps) \<in> set LOG_LEVEL_PATTERNS" by (rule map_of_SomeD)
    with a have "list_all (\<lambda>p. 0 < min_len p) ps" by (auto simp add: list_all_iff)
    with Some show ?thesis by (simp add: compiled_level_patterns_def list_all_iff)
  qed
qed

text \<open>
  Claim C4, as stated, fails: \<open>re.sub\<close> removes every occurrence of a pattern, not the
  first only. For the line \<open>FATAL FATAL boom\<close> the message is \<open>boom\<close>; removing first
  occurrences only would leave \<open>FATAL boom\<close>.
\<close>

theorem message_first_occurrence_counterexample:
  "map message (parse_file ''FATAL FATAL boom'') = [''boom''] \<and>
   message_first_occurrence ''FATAL FATAL boom'' = ''FATAL boom''"
  by code_simp

text \<open>
  Claim C4, amended. For every line that is not empty after stripping, the message is
  derived from the stripped line by removing every occurrence of each timestamp shape
  when a timestamp was found, then every occurrence of each pattern of the detected
  level when a level was found (the text is trimmed after each removal), then collapsing
  runs of whitespace to single spaces and trimming; if the result is empty, the message
  is the stripped line. Removing every occurrence of a pattern from a text leaves no
  position at which an occurrence starts, and every position it removes lies in an
  occurrence that is removed whole.
\<close>

theorem message_removes_every_occurrence:
  "(py_strip line0 \<noteq> [] \<longrightarrow>
      (\<exists>e. parse_line line0 idx = Some e \<and>
           message e = message_every_occurrence (py_strip line0))) \<and>
   (\<forall>b \<in> set (kept_positions ic pattern content 0). \<not> occurs_at ic pattern content b) \<and>
   (\<forall>q < length content. q \<notin> set (kept_positions ic pattern content 0) \<longrightarrow>
      (\<exists>b e. b \<le> q \<and> q < e \<and> match_end ic pattern content b = Some e \<and>
         (\<forall>i \<in> set [b..<e]. i \<notin> set (kept_positions ic pattern content 0))))"
proof (intro conjI impI allI ballI)
  assume "py_strip line0 \<noteq> []"
  then show "\<exists>e. parse_line line0 idx = Some e \<and>
           message e = message_every_occurrence (py_strip line0)"
    by (simp add: parse_line_def message_every_occurrence_def collapse_ws_def
        join_split_squeeze Let_def foldl_remove_all[OF timestamp_patterns_consume]
        foldl_remove_all[OF level_patterns_consume] cong: option.case_cong)
next
  fix b assume "b \<in> set (kept_positions ic pattern content 0)"
  from kept_positions_free[OF this] show "\<not> occurs_at ic pattern content b" by simp
next
  fix q assume "q < length content" "q \<notin> set (kept_positions ic pattern content 0)"
  with removed_positions_covered[of 0 q content ic pattern]
  show "\<exists>b e. b \<le> q \<and> q < e \<and> match_end ic pattern content b = Some e \<and>
         (\<forall>i \<in> set [b..<e]. i \<notin> set (kept_positions ic pattern content 0))"
    by simp
qed

text \<open>
  A line with two timestamps and two level tokens: both of each are removed, where
  removal of first occurrences would keep the second timestamp and the second token.
  In \<open>FATAL FATAL boom\<close> the positions kept are those of the two blanks and of \<open>boom\<close>.
\<close>

theorem message_removes_every_occurrence_witness:
  "py_strip ''2024-01-15 10:30:45 FATAL a 2024-01-16 11:00:00 FATAL b'' \<noteq> [] \<and>
   map_option message
     (parse_line ''2024-01-15 10:30:45 FATAL a 2024-01-16 11:00:00 FATAL b'' 1)
     = Some ''a b'' \<and>
   message_every_occurrence
     (py_strip ''2024-01-15 10:30:45 FATAL a 2024-01-16 11:00:00 FATAL b'')
     = ''a b'' \<and>
   message_first_occurrence ''2024-01-15 10:30:45 FATAL a 2024-01-16 11:00:00 FATAL b''
     = ''a 2024-01-16 11:00:00 FATAL b'' \<and>
   kept_positions True (rword ''FATAL'') ''FATAL FATAL boom'' 0 = [5, 11, 12, 13, 14, 15] \<and>
   remove_all True (rword ''FATAL'') ''FATAL FATAL boom'' = ''  boom'' \<and>
   \<not> occurs_at True (rword ''FATAL'') ''FATAL FATAL boom'' 5 \<and>
   occurs_at True (rword ''FATAL'') ''FATAL FATAL boom'' 6 \<and>
   (\<exists>b e. b \<le> 6 \<and> 6 < e \<and> match_end True (rword ''FATAL'') ''FATAL FATAL boom'' b = Some e)"
proof -
  let ?L = "''2024-01-15 10:30:45 FATAL a 2024-01-16 11:00:00 FATAL b''"
  let ?T = "''FATAL FATAL boom''"
  note inst = message_removes_every_occurrence[of ?L 1 True "rword ''FATAL''" ?T]
  have a: "py_strip ?L \<noteq> []" by code_simp
  have b: "map_option message (parse_line ?L 1) = Some ''a b''" by code_simp
  from inst a obtain e where
    e: "parse_line ?L 1 = Some e" "message e = message_every_occurrence (py_strip ?L)"
    by blast
  with b have c: "message_every_occurrence (py_strip ?L) = ''a b''" by simp
  have d: "message_first_occurrence ?L = ''a 2024-01-16 11:00:00 FATAL b''"
    by code_simp
  have k: "kept_positions True (rword ''FATAL'') ?T 0 = [5, 11, 12, 13, 14, 15]" by code_simp
  have r: "remove_all True (rword ''FATAL'') ?T = ''  boom''" by code_simp
  from k have "5 \<in> set (kept_positions True (rword ''FATAL'') ?T 0)" by simp
  with inst have f: "\<not> occurs_at True (rword ''FATAL'') ?T 5" by blast
  have g: "occurs_at True (rword ''FATAL'') ?T 6" by code_simp
  from k have "6 < length ?T" "6 \<notin> set (kept_positions True (rword ''FATAL'') ?T 0)"
    by simp_all
  with inst have h: "\<exists>b e. b \<le> 6 \<and> 6 < e \<and> match_end True (rword ''FATAL'') ?T b = Some e"
    by blast
  from a b c d k r f g h show ?thesis by blast
qed

lemma counter_get_add:
  "counter_get (counter_add x c) k = counter_get c k + (if x = k then 1 else 0)"
  by (induction c) (auto simp: counter_get_def)

lemma counter_get_foldl:
  "counter_get (foldl (\<lambda>c x. counter_add x c) c0 xs) k = counter_get c0 k + count_list xs k"
  by (induction xs arbitrary: c0) (auto simp: counter_get_add)

lemma counter_get_Counter: "counter_get (Counter xs) k = count_list xs k"
proof -
  have "counter_get [] k = 0" by (simp add: counter_get_def)
  with counter_get_foldl[of "[]" xs k] show ?thesis by (simp add: Counter_def)
qed

lemma four_counts:
  assumes "distinct [a, b, c, d]"
  shows "count_list xs a + count_list xs b + count_list xs c + count_list xs d
           + length (filter (\<lambda>x. x \<notin> {a, b, c, d}) xs) = length xs"
  using assms by (induction xs) auto

lemma level_counts_total:
  "count_list ls (Some ''ERROR'') + count_list ls (Some ''WARNING'') +
   count_list ls (Some ''INFO'') + count_list ls (Some ''DEBUG'') +
   length (filter (\<lambda>x. x \<notin> named_levels) ls) = length ls"
  unfolding named_levels_def by (rule four_counts) simp

text \<open>
  Claim C8. For every entry sequence the four level counts of the summary add up to at
  most the total, with equality exactly when every entry has one of the four named
  levels (no entry is unclassified); and the summary of the empty sequence has all
  counts zero and empty collections.
\<close>

theorem analyze_level_counts:
  "error_count (analyze fl fromisoformat log_entries) +
   warning_count (analyze fl fromisoformat log_entries) +
   info_count (analyze fl fromisoformat log_entries) +
   debug_count (analyze fl fromisoformat log_entries)
     \<le> total_entries (analyze fl fromisoformat log_entries) \<and>
   (error_count (analyze fl fromisoformat log_entries) +
    warning_count (analyze fl fromisoformat log_entries) +
    info_count (analyze fl fromisoformat log_entries) +
    debug_count (analyze fl fromisoformat log_entries)
      = total_entries (analyze fl fromisoformat log_entries)
    \<longleftrightarrow> (\<forall>entry \<in> set log_entries. log_level entry \<in> named_levels)) \<and>
   analyze fl fromisoformat [] =
     \<lparr>total_entries = 0, error_count = 0, warning_count = 0, info_count = 0, debug_count = 0,
      top_errors = [], top_warnings = [], time_distribution = []\<rparr>"
proof -
  let ?a = "analyze fl fromisoformat log_entries"
  let ?ls = "map log_level log_entries"
  let ?sum = "error_count ?a + warning_count ?a + info_count ?a + debug_count ?a"
  let ?unknown = "length (filter (\<lambda>x. x \<notin> named_levels) ?ls)"
  have e: "analyze fl fromisoformat [] =
     \<lparr>total_entries = 0, error_count = 0, warning_count = 0, info_count = 0, debug_count = 0,
      top_errors = [], top_warnings = [], time_distribution = []\<rparr>"
    by (simp add: analyze_def empty_analysis_def)
  have t: "?sum + ?unknown = total_entries ?a"
  proof (cases "log_entries = []")
    case True
    then show ?thesis by (simp add: analyze_def empty_analysis_def)
  next
    case False
    with level_counts_total[of ?ls] show ?thesis
      by (simp add: analyze_def Let_def counter_get_Counter)
  qed
  have u: "?unknown = 0 \<longleftrightarrow> (\<forall>entry \<in> set log_entries. log_level entry \<in> named_levels)"
    by (auto simp: filter_empty_conv)
  from t have le: "?sum \<le> total_entries ?a" by linarith
  from t have "?sum = total_entries ?a \<longleftrightarrow> ?unknown = 0" by linarith
  with u have eq: "?sum = total_entries ?a
      \<longleftrightarrow> (\<forall>entry \<in> set log_entries. log_level entry \<in> named_levels)" by blast
  from le eq e show ?thesis by blast
qed

text \<open>Three entries, one of them without a level: the counts add up to 2 of 3.\<close>

theorem analyze_level_counts_witness:
  "error_count (analyze exact_floats (\<lambda>s. None)
      (parse_file (''ERROR a'' @ [CHR 0x0A] @ ''foo'' @ [CHR 0x0A] @ ''WARN b''))) = 1 \<and>
   warning_count (analyze exact_floats (\<lambda>s. None)
      (parse_file (''ERROR a'' @ [CHR 0x0A] @ ''foo'' @ [CHR 0x0A] @ ''WARN b''))) = 1 \<and>
   info_count (analyze exact_floats (\<lambda>s. None)
      (parse_file (''ERROR a'' @ [CHR 0x0A] @ ''foo'' @ [CHR 0x0A] @ ''WARN b''))) = 0 \<and>
   debug_count (analyze exact_floats (\<lambda>s. None)
      (parse_file (''ERROR a'' @ [CHR 0x0A] @ ''foo'' @ [CHR 0x0A] @ ''WARN b''))) = 0 \<and>
   total_entries (analyze exact_floats (\<lambda>s. None)
      (parse_file (''ERROR a'' @ [CHR 0x0A] @ ''foo'' @ [CHR 0x0A] @ ''WARN b''))) = 3 \<and>
   \<not> (\<forall>entry \<in> set (parse_file (''ERROR a'' @ [CHR 0x0A] @ ''foo'' @ [CHR 0x0A] @ ''WARN b'')).
         log_level entry \<in> named_levels)"
proof -
  let ?es = "parse_file (''ERROR a'' @ [CHR 0x0A] @ ''foo'' @ [CHR 0x0A] @ ''WARN b'')"
  let ?a = "analyze exact_floats (\<lambda>s. None) ?es"
  have es: "?es =
     [\<lparr>line_number = 1, log_level = Some ''ERROR'', timestamp = None, message = ''a'',
        raw_line = ''ERROR a''\<rparr>,
      \<lparr>line_number = 2, log_level = None, timestamp = None, message = ''foo'',
        raw_line = ''foo''\<rparr>,
      \<lparr>line_number = 3, log_level = Some ''WARNING'', timestamp = None, message = ''b'',
        raw_line = ''WARN b''\<rparr>]"
    by code_simp
  have c: "error_count ?a = 1" "warning_count ?a = 1" "info_count ?a = 0" "debug_count ?a = 0"
      "total_entries ?a = 3"
    unfolding es by code_simp+
  then have "error_count ?a + warning_count ?a + info_count ?a + debug_count ?a
      \<noteq> total_entries ?a" by simp
  with analyze_level_counts[of exact_floats "\<lambda>s. None" ?es]
  have "\<not> (\<forall>entry \<in> set ?es. log_level entry \<in> named_levels)" by blast
  with c show ?thesis by blast
qed

text \<open>
  Claim C7. For every batch of fewer than 10 entries, whatever the contamination (and
  whatever the model would do), the summary is the well-formed empty one, with
  \<open>has_anomalies\<close> false and \<open>anomaly_count\<close> zero, and no exception: the model is not run.
\<close>

theorem small_batch_no_anomalies:
  assumes "length log_entries < 10"
  shows "get_anomaly_summary model fl fromisoformat contamination log_entries =
           Inr \<lparr>has_anomalies = False, anomaly_count = 0, anomaly_percentage = 0,
                anomalies = Some [], as_total_entries = None, top_anomalies = None,
                as_recommendation = None\<rparr>"
  using assms by (simp add: get_anomaly_summary_def detect_anomalies_def)

text \<open>Nine entries, with a model that would raise if it were run.\<close>

theorem small_batch_no_anomalies_witness:
  "length (replicate 9 \<lparr>line_number = 1, log_level = Some ''ERROR'', timestamp = None,
              message = ''Connection timeout'', raw_line = ''ERROR Connection timeout''\<rparr>) < 10 \<and>
   get_anomaly_summary (\<lambda>c features. Inl ''ValueError'') exact_floats (\<lambda>s. None) (1 / 10 :: rat)
     (replicate 9 \<lparr>line_number = 1, log_level = Some ''ERROR'', timestamp = None,
              message = ''Connection timeout'', raw_line = ''ERROR Connection timeout''\<rparr>)
     = Inr \<lparr>has_anomalies = False, anomaly_count = 0, anomaly_percentage = 0,
            anomalies = Some [], as_total_entries = None, top_anomalies = None,
            as_recommendation = None\<rparr>"
proof -
  let ?es = "replicate 9 \<lparr>line_number = 1, log_level = Some ''ERROR'', timestamp = None,
              message = ''Connection timeout'', raw_line = ''ERROR Connection timeout''\<rparr>"
  have l: "length ?es < 10" by simp
  from small_batch_no_anomalies[OF l, where model = "\<lambda>c features. Inl ''ValueError''"
      and fl = exact_floats and fromisoformat = "\<lambda>s. None" and contamination = "1 / 10 :: rat"] l
  show ?thesis by simp
qed

section \<open>Properties of the grouper\<close>

lemma scan_skip:
  assumes "fst je \<in> P \<or> py_lower (message (snd je)) = [] \<or>
           \<not> similar m (py_lower (message (snd je)))"
  shows "scan_candidates similar m (je # later) P = scan_candidates similar m later P"
  using assms by (auto simp: Let_def)

lemma scan_take:
  assumes "fst je \<notin> P" "py_lower (message (snd je)) \<noteq> []"
      "similar m (py_lower (message (snd je)))"
  shows "scan_candidates similar m (je # later) P =
           (je # fst (scan_candidates similar m later (insert (fst je) P)),
            snd (scan_candidates similar m later (insert (fst je) P)))"
  using assms by (simp add: Let_def split: prod.splits)

lemma scan_cases:
  obtains (skip) "scan_candidates similar m (je # later) P = scan_candidates similar m later P"
      "fst je \<in> P \<or> py_lower (message (snd je)) = [] \<or> \<not> similar m (py_lower (message (snd je)))"
    | (take) "scan_candidates similar m (je # later) P =
           (je # fst (scan_candidates similar m later (insert (fst je) P)),
            snd (scan_candidates similar m later (insert (fst je) P)))"
      "fst je \<notin> P" "py_lower (message (snd je)) \<noteq> []" "similar m (py_lower (message (snd je)))"
  using scan_skip[of je P similar m later] scan_take[of je P similar m later] by blast

lemma scan_found_subset:
  "set (fst (scan_candidates similar m later P)) \<subseteq> set later"
proof (induction later arbitrary: P)
  case Nil
  then show ?case by simp
next
  case (Cons je later)
  show ?case
  proof (cases rule: scan_cases[of similar m je later P])
    case skip
    with Cons.IH[of P] show ?thesis by auto
  next
    case take
    with Cons.IH[of "insert (fst je) P"] show ?thesis by auto
  qed
qed

lemma scan_found_sorted:
  "sorted_wrt (<) (map fst later) \<Longrightarrow>
   sorted_wrt (<) (map fst (fst (scan_candidates similar m later P)))"
proof (induction later arbitrary: P)
  case Nil
  then show ?case by simp
next
  case (Cons je later)
  from Cons.prems have s: "sorted_wrt (<) (map fst later)"
    and lt: "\<forall>x \<in> set later. fst je < fst x" by auto
  show ?case
  proof (cases rule: scan_cases[of similar m je later P])
    case skip
    with Cons.IH[OF s, of P] show ?thesis by simp
  next
    case take
    have "set (fst (scan_candidates similar m later (insert (fst je) P))) \<subseteq> set later"
      by (rule scan_found_subset)
    with lt have "\<forall>x \<in> set (fst (scan_candidates similar m later (insert (fst je) P))). fst je < fst x"
      by blast
    with take Cons.IH[OF s, of "insert (fst je) P"] show ?thesis by simp
  qed
qed

lemma scan_processed:
  "snd (scan_candidates similar m later P) =
     P \<union> fst ` set (fst (scan_candidates similar m later P))"
proof (induction later arbitrary: P)
  case Nil
  then show ?case by simp
next
  case (Cons je later)
  show ?case
  proof (cases rule: scan_cases[of similar m je later P])
    case skip
    with Cons.IH[of P] show ?thesis by simp
  next
    case take
    with Cons.IH[of "insert (fst je) P"] show ?thesis by auto
  qed
qed

lemma scan_processed_irrelevant:
  assumes "\<forall>x \<in> set later. fst x \<in> P \<longleftrightarrow> fst x \<in> Q" "distinct (map fst later)"
  shows "fst (scan_candidates similar m later P) = fst (scan_candidates similar m later Q)"
  using assms
proof (induction later arbitrary: P Q)
  case Nil
  then show ?case by simp
next
  case (Cons je later)
  from Cons.prems have agree: "\<forall>x \<in> set later. fst x \<in> P \<longleftrightarrow> fst x \<in> Q"
    and d: "distinct (map fst later)" and here: "fst je \<in> P \<longleftrightarrow> fst je \<in> Q"
    by auto
  from Cons.prems(2) have "fst je \<notin> fst ` set later" by simp
  then have new: "\<forall>x \<in> set later. fst x \<noteq> fst je" by (metis imageI)
  from agree new have agree': "\<forall>x \<in> set later. fst x \<in> insert (fst je) P \<longleftrightarrow> fst x \<in> insert (fst je) Q"
    by auto
  show ?case
  proof (cases rule: scan_cases[of similar m je later P])
    case skip
    with here have "scan_candidates similar m (je # later) Q = scan_candidates similar m later Q"
      by (intro scan_skip) blast
    with skip Cons.IH[OF agree d] show ?thesis by simp
  next
    case take
    with here have "scan_candidates similar m (je # later) Q =
           (je # fst (scan_candidates similar m later (insert (fst je) Q)),
            snd (scan_candidates similar m later (insert (fst je) Q)))"
      by (intro scan_take) blast+
    with take Cons.IH[OF agree' d] show ?thesis by simp
  qed
qed

lemma scan_monotone:
  assumes "\<And>a b. strict a b \<Longrightarrow> loose a b" "distinct (map fst later)"
  shows "set (fst (scan_candidates strict m later P)) \<subseteq> set (fst (scan_candidates loose m later P)) \<and>
         length (fst (scan_candidates strict m later P)) \<le> length (fst (scan_candidates loose m later P))"
  using assms(2)
proof (induction later arbitrary: P)
  case Nil
  then show ?case by simp
next
  case (Cons je later)
  from Cons.prems have d: "distinct (map fst later)" by simp
  from Cons.prems have "fst je \<notin> fst ` set later" by simp
  then have new: "\<forall>x \<in> set later. fst x \<noteq> fst je" by (metis imageI)
  let ?m2 = "py_lower (message (snd je))"
  have irr: "fst (scan_candidates loose m later (insert (fst je) P)) =
             fst (scan_candidates loose m later P)"
    by (rule scan_processed_irrelevant) (use new d in auto)
  show ?case
  proof (cases rule: scan_cases[of strict m je later P])
    case take
    with assms(1) have "loose m ?m2" by blast
    with take have "scan_candidates loose m (je # later) P =
           (je # fst (scan_candidates loose m later (insert (fst je) P)),
            snd (scan_candidates loose m later (insert (fst je) P)))"
      by (intro scan_take) blast+
    with take(1) Cons.IH[OF d, of "insert (fst je) P"] show ?thesis by auto
  next
    case skip
    show ?thesis
    proof (cases rule: scan_cases[of loose m je later P])
      case skip
      with \<open>scan_candidates strict m (je # later) P = scan_candidates strict m later P\<close>
        Cons.IH[OF d, of P] show ?thesis by simp
    next
      case take
      with \<open>scan_candidates strict m (je # later) P = scan_candidates strict m later P\<close>
        Cons.IH[OF d, of P] irr show ?thesis by auto
    qed
  qed
qed

lemma loop_cases:
  obtains (skip) "fst ie \<in> P \<or> py_lower (message (snd ie)) = []"
      "group_loop similar (ie # later) groups P = group_loop similar later groups P"
      "discarded_seeds similar (ie # later) P = discarded_seeds similar later P"
    | (discard) "fst ie \<notin> P" "py_lower (message (snd ie)) \<noteq> []"
      "scan_candidates similar (py_lower (message (snd ie))) later P = ([], P)"
      "group_loop similar (ie # later) groups P = group_loop similar later groups P"
      "discarded_seeds similar (ie # later) P = fst ie # discarded_seeds similar later P"
    | (keep) found P' where "fst ie \<notin> P" "py_lower (message (snd ie)) \<noteq> []"
      "scan_candidates similar (py_lower (message (snd ie))) later P = (found, P')" "found \<noteq> []"
      "group_loop similar (ie # later) groups P =
         group_loop similar later (groups @ [new_group ie found groups]) (insert (fst ie) P')"
      "discarded_seeds similar (ie # later) P = discarded_seeds similar later (insert (fst ie) P')"
proof (cases "fst ie \<in> P \<or> py_lower (message (snd ie)) = []")
  case True
  then have "group_loop similar (ie # later) groups P = group_loop similar later groups P"
      "discarded_seeds similar (ie # later) P = discarded_seeds similar later P"
    by (auto simp: Let_def)
  with True show ?thesis by (rule skip)
next
  case False
  obtain found P' where sc: "scan_candidates similar (py_lower (message (snd ie))) later P = (found, P')"
    by (cases "scan_candidates similar (py_lower (message (snd ie))) later P") auto
  show ?thesis
  proof (cases "found = []")
    case True
    from scan_processed[of similar "py_lower (message (snd ie))" later P] sc True
    have "P' = P" by simp
    with False sc True show ?thesis by (intro discard) (auto simp: Let_def)
  next
    case ne: False
    with False sc show ?thesis
      by (intro keep[of found P']) (auto simp: Let_def new_group_def)
  qed
qed

lemma group_loop_sorted:
  assumes "sorted_wrt (<) (map fst todo)"
      "\<forall>g \<in> set groups. sorted_wrt (<) (map fst (g_members g))"
  shows "\<forall>g \<in> set (group_loop similar todo groups P). sorted_wrt (<) (map fst (g_members g))"
  using assms
proof (induction todo arbitrary: groups P)
  case Nil
  then show ?case by simp
next
  case (Cons ie later)
  from Cons.prems(1) have s: "sorted_wrt (<) (map fst later)"
    and lt: "\<forall>x \<in> set later. fst ie < fst x" by auto
  show ?case
  proof (cases rule: loop_cases[of ie P similar later groups])
    case skip
    with Cons.IH[OF s Cons.prems(2), of P] show ?thesis by simp
  next
    case discard
    with Cons.IH[OF s Cons.prems(2), of P] show ?thesis by simp
  next
    case (keep found P')
    from scan_found_sorted[OF s, of similar "py_lower (message (snd ie))" P] keep(3)
    have fs: "sorted_wrt (<) (map fst found)" by simp
    from scan_found_subset[of similar "py_lower (message (snd ie))" later P] keep(3)
    have "set found \<subseteq> set later" by simp
    with lt fs have "sorted_wrt (<) (map fst (ie # found))" by auto
    with Cons.prems(2)
    have "\<forall>g \<in> set (groups @ [new_group ie found groups]). sorted_wrt (<) (map fst (g_members g))"
      by (auto simp: new_group_def)
    from Cons.IH[OF s this, of "insert (fst ie) P'"] keep(5) show ?thesis by simp
  qed
qed

lemma group_loop_positions:
  "\<Union> (member_positions ` set (group_loop similar todo groups P))
     \<subseteq> \<Union> (member_positions ` set groups) \<union> fst ` set todo"
proof (induction todo arbitrary: groups P)
  case Nil
  then show ?case by simp
next
  case (Cons ie later)
  show ?case
  proof (cases rule: loop_cases[of ie P similar later groups])
    case skip
    with Cons.IH[of groups P] show ?thesis by auto
  next
    case discard
    with Cons.IH[of groups P] show ?thesis by auto
  next
    case (keep found P')
    from scan_found_subset[of similar "py_lower (message (snd ie))" later P] keep(3)
    have "set found \<subseteq> set later" by simp
    then have "member_positions (new_group ie found groups) \<subseteq> fst ` set (ie # later)"
      by (auto simp: member_positions_def new_group_def)
    with Cons.IH[of "groups @ [new_group ie found groups]" "insert (fst ie) P'"]
    have "\<Union> (member_positions ` set (group_loop similar later
              (groups @ [new_group ie found groups]) (insert (fst ie) P')))
              \<subseteq> \<Union> (member_positions ` set groups) \<union> fst ` set (ie # later)"
      by auto
    with keep(5) show ?thesis by simp
  qed
qed

lemma discarded_never_grouped:
  assumes "sorted_wrt (<) (map fst todo)"
      "\<Union> (member_positions ` set groups) \<subseteq> P"
      "i \<in> set (discarded_seeds similar todo P)"
  shows "i \<notin> \<Union> (member_positions ` set (group_loop similar todo groups P))"
  using assms
proof (induction todo arbitrary: groups P)
  case Nil
  then show ?case by simp
next
  case (Cons ie later)
  from Cons.prems(1) have s: "sorted_wrt (<) (map fst later)"
    and lt: "\<forall>x \<in> set later. fst ie < fst x" by auto
  show ?case
  proof (cases rule: loop_cases[of ie P similar later groups])
    case skip
    with Cons.prems(3) have "i \<in> set (discarded_seeds similar later P)" by simp
    from Cons.IH[OF s Cons.prems(2) this] skip show ?thesis by simp
  next
    case discard
    from discard(5) Cons.prems(3)
    have "i = fst ie \<or> i \<in> set (discarded_seeds similar later P)" by simp
    then show ?thesis
    proof
      assume i: "i = fst ie"
      from discard(1) Cons.prems(2) i have "i \<notin> \<Union> (member_positions ` set groups)" by auto
      moreover from lt i have "i \<notin> fst ` set later" by auto
      ultimately show ?thesis
        using group_loop_positions[of similar later groups P] discard(4) by auto
    next
      assume "i \<in> set (discarded_seeds similar later P)"
      from Cons.IH[OF s Cons.prems(2) this] discard(4) show ?thesis by simp
    qed
  next
    case (keep found P')
    from scan_processed[of similar "py_lower (message (snd ie))" later P] keep(3)
    have P': "P' = P \<union> fst ` set found" by simp
    from keep(6) Cons.prems(3)
    have d: "i \<in> set (discarded_seeds similar later (insert (fst ie) P'))" by simp
    have "\<Union> (member_positions ` set (groups @ [new_group ie found groups])) \<subseteq> insert (fst ie) P'"
      using Cons.prems(2) P' by (auto simp: member_positions_def new_group_def)
    from Cons.IH[OF s this d] keep(5) show ?thesis by simp
  qed
qed

lemma enumerate_sorted: "sorted_wrt (<) (map fst (enumerate_from0 xs))"
  by (simp add: enumerate_from0_def map_fst_zip sorted_wrt_upt)

lemma returned_groups_subset:
  "set (group_similar_errors_with similar es)
     \<subseteq> set (group_loop similar (enumerate_from0 es) [] {})"
proof (cases "es = []")
  case True
  then show ?thesis by (simp add: group_similar_errors_with_def)
next
  case False
  have "set (take 20 (sort_key (\<lambda>g. - int (g_count g)) (group_loop similar (enumerate_from0 es) [] {})))
          \<subseteq> set (sort_key (\<lambda>g. - int (g_count g)) (group_loop similar (enumerate_from0 es) [] {}))"
    by (rule set_take_subset)
  with False show ?thesis by (simp add: group_similar_errors_with_def)
qed

text \<open>
  Claim C1, as stated, fails. Four ERROR entries with the messages \<open>d\<close>, \<open>abc\<close>, \<open>abcd\<close>,
  \<open>d\<close>: at the threshold 0.1 the first entry absorbs the third (similarity 0.24) and the
  fourth, which leaves \<open>abc\<close> alone, 3 entries grouped; at the threshold 0.4 the first
  absorbs the fourth only, and \<open>abc\<close> absorbs \<open>abcd\<close> (similarity 18/35), 4 entries
  grouped. Raising the threshold has increased the total.
\<close>

theorem grouping_monotonicity_counterexample:
  "(1 / 10 :: rat) \<le> 4 / 10 \<and>
   total_grouped (group_similar_errors
     [example_entry ''ERROR'' ''d'', example_entry ''ERROR'' ''abc'',
      example_entry ''ERROR'' ''abcd'', example_entry ''ERROR'' ''d''] (1 / 10)) = 3 \<and>
   total_grouped (group_similar_errors
     [example_entry ''ERROR'' ''d'', example_entry ''ERROR'' ''abc'',
      example_entry ''ERROR'' ''abcd'', example_entry ''ERROR'' ''d''] (4 / 10)) = 4"
proof -
  have a: "(1 / 10 :: rat) \<le> 4 / 10" by simp
  have b: "total_grouped (group_similar_errors
     [example_entry ''ERROR'' ''d'', example_entry ''ERROR'' ''abc'',
      example_entry ''ERROR'' ''abcd'', example_entry ''ERROR'' ''d''] (1 / 10)) = 3"
    by code_simp
  have c: "total_grouped (group_similar_errors
     [example_entry ''ERROR'' ''d'', example_entry ''ERROR'' ''abc'',
      example_entry ''ERROR'' ''abcd'', example_entry ''ERROR'' ''d''] (4 / 10)) = 4"
    by code_simp
  from a b c show ?thesis by blast
qed

text \<open>
  Claim C1, amended. For thresholds \<open>t1 \<le> t2\<close>, the scan of one seed over the same later
  entries and the same processed set absorbs at \<open>t2\<close> only entries that it absorbs at
  \<open>t1\<close>, so no more of them: each scan is monotone in the threshold. (The total over the
  greedy grouping is not: an entry absorbed at the lower threshold is no longer there to
  seed a group of its own.)
\<close>

theorem scan_monotone_in_threshold:
  assumes "t1 \<le> t2" "distinct (map fst later)"
  shows "set (fst (scan_candidates (at_least t2) message1 later processed))
           \<subseteq> set (fst (scan_candidates (at_least t1) message1 later processed)) \<and>
         length (fst (scan_candidates (at_least t2) message1 later processed))
           \<le> length (fst (scan_candidates (at_least t1) message1 later processed))"
proof (rule scan_monotone)
  fix a b
  assume "at_least t2 a b"
  with assms(1) show "at_least t1 a b" by (simp add: at_least_def)
next
  show "distinct (map fst later)" by (rule assms(2))
qed

text \<open>The scan of the seed \<open>d\<close> over \<open>abc\<close>, \<open>abcd\<close>, \<open>d\<close> at the two thresholds.\<close>

theorem scan_monotone_in_threshold_witness:
  "(1 / 10 :: rat) \<le> 4 / 10 \<and>
   distinct (map fst [(1 :: nat, example_entry ''ERROR'' ''abc''),
                      (2, example_entry ''ERROR'' ''abcd''), (3, example_entry ''ERROR'' ''d'')]) \<and>
   map fst (fst (scan_candidates (at_least (4 / 10)) ''d''
     [(1, example_entry ''ERROR'' ''abc''), (2, example_entry ''ERROR'' ''abcd''),
      (3, example_entry ''ERROR'' ''d'')] {})) = [3] \<and>
   map fst (fst (scan_candidates (at_least (1 / 10)) ''d''
     [(1, example_entry ''ERROR'' ''abc''), (2, example_entry ''ERROR'' ''abcd''),
      (3, example_entry ''ERROR'' ''d'')] {})) = [2, 3] \<and>
   length (fst (scan_candidates (at_least (4 / 10)) ''d''
     [(1, example_entry ''ERROR'' ''abc''), (2, example_entry ''ERROR'' ''abcd''),
      (3, example_entry ''ERROR'' ''d'')] {}))
     \<le> length (fst (scan_candidates (at_least (1 / 10)) ''d''
     [(1, example_entry ''ERROR'' ''abc''), (2, example_entry ''ERROR'' ''abcd''),
      (3, example_entry ''ERROR'' ''d'')] {}))"
proof -
  let ?later = "[(1 :: nat, example_entry ''ERROR'' ''abc''),
                 (2, example_entry ''ERROR'' ''abcd''), (3, example_entry ''ERROR'' ''d'')]"
  have a: "(1 / 10 :: rat) \<le> 4 / 10" by simp
  have d: "distinct (map fst ?later)" by simp
  have s2: "map fst (fst (scan_candidates (at_least (4 / 10)) ''d'' ?later {})) = [3]"
    by code_simp
  have s1: "map fst (fst (scan_candidates (at_least (1 / 10)) ''d'' ?later {})) = [2, 3]"
    by code_simp
  from scan_monotone_in_threshold[OF a d, of "''d''" "{}"] a d s1 s2 show ?thesis by blast
qed

text \<open>
  Claim C3, as stated, fails: there is no batch in which an entry that was discarded as
  a seed is a member of a group. The scan of a seed runs over the later entries only, so
  a later seed never reaches back to it.
\<close>

theorem discarded_seed_absorbed_counterexample:
  "\<not> (\<exists>(similar :: string \<Rightarrow> string \<Rightarrow> bool) (log_entries :: log_entry list) i g.
        i \<in> set (discarded_seeds similar (enumerate_from0 log_entries) {}) \<and>
        g \<in> set (group_similar_errors_with similar log_entries) \<and>
        i \<in> member_positions g)"
proof
  assume "\<exists>(similar :: string \<Rightarrow> string \<Rightarrow> bool) (log_entries :: log_entry list) i g.
        i \<in> set (discarded_seeds similar (enumerate_from0 log_entries) {}) \<and>
        g \<in> set (group_similar_errors_with similar log_entries) \<and>
        i \<in> member_positions g"
  then obtain similar :: "string \<Rightarrow> string \<Rightarrow> bool" and log_entries :: "log_entry list" and i g
    where i: "i \<in> set (discarded_seeds similar (enumerate_from0 log_entries) {})"
      and g: "g \<in> set (group_similar_errors_with similar log_entries)"
      and m: "i \<in> member_positions g" by blast
  from discarded_never_grouped[OF enumerate_sorted _ i, of "[]"]
  have "i \<notin> \<Union> (member_positions ` set (group_loop similar (enumerate_from0 log_entries) [] {}))"
    by simp
  with g m returned_groups_subset[of similar log_entries] show False by blast
qed

text \<open>
  Claim C3, amended. A seed whose scan adds no member is discarded without being marked
  processed, and it is never absorbed afterwards: the members of every group lie at
  increasing positions from the seed on, and a discarded seed is a member of no group.
\<close>

theorem discarded_seed_never_absorbed:
  "(\<forall>g \<in> set (group_similar_errors_with similar log_entries).
      sorted_wrt (<) (map fst (g_members g))) \<and>
   (\<forall>i \<in> set (discarded_seeds similar (enumerate_from0 log_entries) {}).
      \<forall>g \<in> set (group_similar_errors_with similar log_entries). i \<notin> member_positions g)"
proof
  from group_loop_sorted[OF enumerate_sorted, of "[]" similar log_entries "{}"]
  have "\<forall>g \<in> set (group_loop similar (enumerate_from0 log_entries) [] {}).
          sorted_wrt (<) (map fst (g_members g))" by simp
  with returned_groups_subset[of similar log_entries]
  show "\<forall>g \<in> set (group_similar_errors_with similar log_entries).
      sorted_wrt (<) (map fst (g_members g))" by blast
next
  show "\<forall>i \<in> set (discarded_seeds similar (enumerate_from0 log_entries) {}).
      \<forall>g \<in> set (group_similar_errors_with similar log_entries). i \<notin> member_positions g"
  proof (intro ballI)
    fix i g
    assume i: "i \<in> set (discarded_seeds similar (enumerate_from0 log_entries) {})"
      and g: "g \<in> set (group_similar_errors_with similar log_entries)"
    from discarded_never_grouped[OF enumerate_sorted _ i, of "[]"]
    have "i \<notin> \<Union> (member_positions ` set (group_loop similar (enumerate_from0 log_entries) [] {}))"
      by simp
    with g returned_groups_subset[of similar log_entries] show "i \<notin> member_positions g" by blast
  qed
qed

text \<open>Three entries \<open>zzz\<close>, \<open>abc\<close>, \<open>abcd\<close> at the threshold 0.4: the first is
  discarded as a seed, the second seeds the group of the second and third.\<close>

theorem discarded_seed_never_absorbed_witness:
  "discarded_seeds (at_least (4 / 10))
     (enumerate_from0 [example_entry ''ERROR'' ''zzz'', example_entry ''ERROR'' ''abc'',
                       example_entry ''ERROR'' ''abcd'']) {} = [0] \<and>
   map (\<lambda>g. map fst (g_members g))
     (group_similar_errors_with (at_least (4 / 10))
        [example_entry ''ERROR'' ''zzz'', example_entry ''ERROR'' ''abc'',
         example_entry ''ERROR'' ''abcd'']) = [[1, 2]] \<and>
   list_all (\<lambda>g. 0 \<notin> member_positions g)
     (group_similar_errors_with (at_least (4 / 10))
        [example_entry ''ERROR'' ''zzz'', example_entry ''ERROR'' ''abc'',
         example_entry ''ERROR'' ''abcd''])"
proof -
  let ?es = "[example_entry ''ERROR'' ''zzz'', example_entry ''ERROR'' ''abc'',
              example_entry ''ERROR'' ''abcd'']"
  have d: "discarded_seeds (at_least (4 / 10)) (enumerate_from0 ?es) {} = [0]"
    by code_simp
  have g: "map (\<lambda>g. map fst (g_members g)) (group_similar_errors_with (at_least (4 / 10)) ?es)
             = [[1, 2]]"
    by code_simp
  from d have "0 \<in> set (discarded_seeds (at_least (4 / 10)) (enumerate_from0 ?es) {})" by simp
  with discarded_seed_never_absorbed[of "at_least (4 / 10)" ?es]
  have "\<forall>g \<in> set (group_similar_errors_with (at_least (4 / 10)) ?es). 0 \<notin> member_positions g"
    by blast
  then have "list_all (\<lambda>g. 0 \<notin> member_positions g) (group_similar_errors_with (at_least (4 / 10)) ?es)"
    by (simp add: list_all_iff)
  with d g show ?thesis by blast
qed

section \<open>Properties of the pattern detection\<close>



end
